theory Spec2Isabelle
  imports Main "HOL-Library.Sublist" "HOL-Library.Multiset"
begin

section \<open>Strings\<close>

text \<open>
  JavaScript strings are modelled as \<open>string\<close> (lists of bytes, UTF-8 for text beyond
  ASCII).  The path and classification logic only ever inspects the ASCII characters
  \<open>/\<close>, \<open>.\<close>, \<open>\\\<close>, \<open>%\<close>, line feeds and ASCII letters, so the
  encoding of other characters does not influence any decision below.
\<close>

text \<open>\<^verbatim>\<open>String.prototype.split(sep)\<close> for a one-character separator.\<close>

fun splitOn :: "char \<Rightarrow> string \<Rightarrow> string list" where
  "splitOn sep [] = [[]]"
| "splitOn sep (c # cs) =
     (if c = sep then [] # splitOn sep cs
      else (case splitOn sep cs of
              [] \<Rightarrow> [[c]]
            | x # xs \<Rightarrow> (c # x) # xs))"

text \<open>\<^verbatim>\<open>Array.prototype.join(sep)\<close>.\<close>

fun joinWith :: "string \<Rightarrow> string list \<Rightarrow> string" where
  "joinWith sep [] = []"
| "joinWith sep [x] = x"
| "joinWith sep (x # y # ys) = x @ sep @ joinWith sep (y # ys)"

text \<open>\<^verbatim>\<open>String.prototype.startsWith\<close> and \<^verbatim>\<open>String.prototype.includes\<close>.\<close>

definition startsWith :: "string \<Rightarrow> string \<Rightarrow> bool" where
  "startsWith s p = (take (length p) s = p)"

fun includesStr :: "string \<Rightarrow> string \<Rightarrow> bool" where
  "includesStr [] p = (p = [])"
| "includesStr (c # cs) p = (startsWith (c # cs) p \<or> includesStr cs p)"

section \<open>Node's \<open>path\<close> module (POSIX flavour)\<close>

text \<open>
  The server relies on \<^verbatim>\<open>node:path\<close>.  Its POSIX functions are purely lexical; they are
  modelled on path segments.  \<open>normalizeSegs allowAboveRoot res segs\<close> is the segment
  loop of Node's \<^verbatim>\<open>normalizeString\<close>: empty and \<open>.\<close> segments are dropped, \<open>..\<close>
  removes the previous segment unless that is itself \<open>..\<close> (or missing), in which case it
  is kept only when the path is relative.  \<open>res\<close> holds the segments produced so far, most
  recent first.
\<close>

fun normalizeSegs :: "bool \<Rightarrow> string list \<Rightarrow> string list \<Rightarrow> string list" where
  "normalizeSegs allowAboveRoot res [] = rev res"
| "normalizeSegs allowAboveRoot res (s # ss) =
     (if s = [] \<or> s = ''.'' then normalizeSegs allowAboveRoot res ss
      else if s = ''..'' then
        (case res of
           [] \<Rightarrow> normalizeSegs allowAboveRoot (if allowAboveRoot then [''..''] else []) ss
         | r # rs \<Rightarrow>
             if r \<noteq> ''..'' then normalizeSegs allowAboveRoot rs ss
             else normalizeSegs allowAboveRoot (if allowAboveRoot then ''..'' # res else res) ss)
      else normalizeSegs allowAboveRoot (s # res) ss)"

definition isAbsolute :: "string \<Rightarrow> bool" where
  "isAbsolute p = (case p of [] \<Rightarrow> False | c # _ \<Rightarrow> c = CHR ''/'')"

definition normalize_path :: "string \<Rightarrow> string" where
  "normalize_path p =
     (if p = [] then ''.''
      else
        let isAbs = isAbsolute p;
            trailingSeparator = (last p = CHR ''/'');
            path = joinWith ''/'' (normalizeSegs (\<not> isAbs) [] (splitOn CHR ''/'' p))
        in if path = [] then (if isAbs then ''/'' else if trailingSeparator then ''./'' else ''.'')
           else (if isAbs then ''/'' else []) @ path @ (if trailingSeparator then ''/'' else []))"

text \<open>\<^verbatim>\<open>path.join(a, b)\<close>: empty arguments are skipped, the rest is joined and normalized.\<close>

definition join :: "string \<Rightarrow> string \<Rightarrow> string" where
  "join a b =
     (if a = [] \<and> b = [] then ''.''
      else normalize_path (if a = [] then b else if b = [] then a else a @ ''/'' @ b))"

text \<open>
  \<^verbatim>\<open>path.resolve(p)\<close> with the process working directory \<open>cwd\<close>, which is consulted
  only when \<open>p\<close> is not absolute.
\<close>

definition resolve :: "string \<Rightarrow> string \<Rightarrow> string" where
  "resolve cwd p =
     (let resolvedPath = (if isAbsolute p then p else cwd @ ''/'' @ p);
          resolvedAbsolute = isAbsolute resolvedPath;
          segs = normalizeSegs (\<not> resolvedAbsolute) [] (splitOn CHR ''/'' resolvedPath)
      in if resolvedAbsolute then ''/'' @ joinWith ''/'' segs
         else if segs = [] then ''.'' else joinWith ''/'' segs)"

definition pathSegments :: "string \<Rightarrow> string list" where
  "pathSegments p = filter (\<lambda>s. s \<noteq> []) (splitOn CHR ''/'' p)"

fun stripCommon :: "string list \<Rightarrow> string list \<Rightarrow> string list \<times> string list" where
  "stripCommon (f # fs) (t # ts) = (if f = t then stripCommon fs ts else (f # fs, t # ts))"
| "stripCommon fs ts = (fs, ts)"

text \<open>
  \<^verbatim>\<open>path.relative(from, to)\<close>: both paths are resolved, their common leading segments
  are dropped, every remaining segment of \<open>from\<close> becomes \<open>..\<close>, and the remaining
  segments of \<open>to\<close> follow.
\<close>

definition relative :: "string \<Rightarrow> string \<Rightarrow> string \<Rightarrow> string" where
  "relative cwd from to =
     (if from = to then []
      else
        let from' = resolve cwd from; to' = resolve cwd to
        in if from' = to' then []
           else (case stripCommon (pathSegments from') (pathSegments to') of
                   (f, t) \<Rightarrow> joinWith ''/'' (map (\<lambda>_. ''..'') f @ t)))"

text \<open>
  \<^verbatim>\<open>path.dirname\<close>: trailing separators and the last segment are cut off; \<open>end\<close> is
  the index of the separator in front of the last segment.
\<close>

definition dirname :: "string \<Rightarrow> string" where
  "dirname p =
     (case p of
        [] \<Rightarrow> ''.''
      | c # t \<Rightarrow>
          let hasRoot = (c = CHR ''/'');
              beforeLast = dropWhile (\<lambda>x. x \<noteq> CHR ''/'') (dropWhile (\<lambda>x. x = CHR ''/'') (rev t));
              end = length beforeLast
          in if beforeLast = [] then (if hasRoot then ''/'' else ''.'')
             else if hasRoot \<and> end = 1 then ''//''
             else take end p)"

text \<open>\<^verbatim>\<open>path.basename\<close>: the last segment, trailing separators ignored.\<close>

definition basename :: "string \<Rightarrow> string" where
  "basename p = rev (takeWhile (\<lambda>x. x \<noteq> CHR ''/'') (dropWhile (\<lambda>x. x = CHR ''/'') (rev p)))"

text \<open>
  \<^verbatim>\<open>path.extname\<close>: from the last dot of the base name to its end; empty when there is
  no dot, when the only dot is the first character, or when the base name is \<open>..\<close>.
\<close>

definition extname :: "string \<Rightarrow> string" where
  "extname p =
     (let base = basename p
      in if CHR ''.'' \<notin> set base then []
         else
           let startDot = length base - length (takeWhile (\<lambda>x. x \<noteq> CHR ''.'') (rev base)) - 1
           in if startDot = 0 \<or> base = ''..'' then [] else drop startDot base)"

text \<open>\<^verbatim>\<open>String.prototype.toLowerCase\<close> on the ASCII letters.\<close>

definition toLowerChar :: "char \<Rightarrow> char" where
  "toLowerChar c =
     (let n = (of_char c :: nat) in if 65 \<le> n \<and> n \<le> 90 then char_of (n + 32) else c)"

definition toLowerCase :: "string \<Rightarrow> string" where
  "toLowerCase s = map toLowerChar s"

section \<open>Exceptions\<close>

text \<open>
  The JavaScript exceptions that can be raised on the request path: \<open>URIError\<close> by
  \<^verbatim>\<open>decodeURIComponent\<close>, \<open>TypeError\<close> and \<open>RangeError\<close> by the path check of the
  \<^verbatim>\<open>ignore\<close> package, \<open>FsError\<close> for any error thrown by a \<^verbatim>\<open>node:fs\<close> call.
\<close>

datatype exn = URIError | TypeError | RangeError | FsError

section \<open>\<open>decodeURIComponent\<close>\<close>

definition hexDigit :: "char \<Rightarrow> nat option" where
  "hexDigit c =
     (let n = (of_char c :: nat)
      in if 48 \<le> n \<and> n \<le> 57 then Some (n - 48)
         else if 65 \<le> n \<and> n \<le> 70 then Some (n - 55)
         else if 97 \<le> n \<and> n \<le> 102 then Some (n - 87)
         else None)"

definition parseHexOctet :: "char \<Rightarrow> char \<Rightarrow> nat option" where
  "parseHexOctet h l =
     (case (hexDigit h, hexDigit l) of
        (Some a, Some b) \<Rightarrow> Some (16 * a + b)
      | _ \<Rightarrow> None)"

text \<open>Number of leading one bits of an octet (5 stands for "more than four").\<close>

definition leadingOnes :: "nat \<Rightarrow> nat" where
  "leadingOnes b =
     (if b < 128 then 0 else if b < 192 then 1 else if b < 224 then 2
      else if b < 240 then 3 else if b < 248 then 4 else 5)"

text \<open>Reads \<open>k\<close> further escapes \<open>%XX\<close>; fails when one of them is missing or malformed.\<close>

fun takeEscapes :: "nat \<Rightarrow> string \<Rightarrow> (nat list \<times> string) option" where
  "takeEscapes 0 s = Some ([], s)"
| "takeEscapes (Suc k) (p # h # l # rest) =
     (if p = CHR ''%'' then
        (case parseHexOctet h l of
           None \<Rightarrow> None
         | Some b \<Rightarrow>
             (case takeEscapes k rest of
                None \<Rightarrow> None
              | Some (bs, r) \<Rightarrow> Some (b # bs, r)))
      else None)"
| "takeEscapes (Suc k) s = None"

definition continuation :: "nat \<Rightarrow> bool" where
  "continuation b = (128 \<le> b \<and> b \<le> 191)"

text \<open>Well-formed UTF-8 sequences of two to four octets (no overlong forms, no surrogates,
  nothing above U+10FFFF).\<close>

fun validUtf8 :: "nat list \<Rightarrow> bool" where
  "validUtf8 [a, b] = (194 \<le> a \<and> a \<le> 223 \<and> continuation b)"
| "validUtf8 [a, b, c] =
     (continuation c \<and>
      (if a = 224 then 160 \<le> b \<and> b \<le> 191
       else if a = 237 then 128 \<le> b \<and> b \<le> 159
       else 225 \<le> a \<and> a \<le> 239 \<and> continuation b))"
| "validUtf8 [a, b, c, d] =
     (continuation c \<and> continuation d \<and>
      (if a = 240 then 144 \<le> b \<and> b \<le> 191
       else if a = 244 then 128 \<le> b \<and> b \<le> 143
       else 241 \<le> a \<and> a \<le> 243 \<and> continuation b))"
| "validUtf8 bs = False"

definition consOk :: "string \<Rightarrow> exn + string \<Rightarrow> exn + string" where
  "consOk pre r = (case r of Inl e \<Rightarrow> Inl e | Inr s \<Rightarrow> Inr (pre @ s))"

text \<open>
  The \<open>Decode\<close> operation of ECMAScript with an empty set of reserved characters: every
  character other than \<open>%\<close> is copied; \<open>%XX\<close> must be two hex digits; an octet with the
  top bit set must start a well-formed UTF-8 sequence whose further octets are escapes
  too.  Every failure is a \<open>URIError\<close>.
\<close>

function decodeURIComponent :: "string \<Rightarrow> exn + string" where
  "decodeURIComponent [] = Inr []"
| "decodeURIComponent (c # cs) =
     (if c \<noteq> CHR ''%'' then consOk [c] (decodeURIComponent cs)
      else
        (case takeEscapes 1 (c # cs) of
           None \<Rightarrow> Inl URIError
         | Some (first, rest) \<Rightarrow>
             let n = leadingOnes (case first of [] \<Rightarrow> 0 | b # _ \<Rightarrow> b)
             in if n = 0 then consOk (map char_of first) (decodeURIComponent rest)
                else if n = 1 \<or> n > 4 then Inl URIError
                else
                  (case takeEscapes (n - 1) rest of
                     None \<Rightarrow> Inl URIError
                   | Some (more, rest') \<Rightarrow>
                       if validUtf8 (first @ more)
                       then consOk (map char_of (first @ more)) (decodeURIComponent rest')
                       else Inl URIError)))"
  by pat_completeness auto

lemma takeEscapes_length:
  "takeEscapes k s = Some (bs, r) \<Longrightarrow> length r + 3 * k = length s"
  by (induction k s arbitrary: bs r rule: takeEscapes.induct)
     (auto split: if_splits option.splits)

termination decodeURIComponent
proof (relation "measure length", goal_cases)
  case 1
  show ?case by simp
next
  case (2 c cs)
  show ?case by simp
next
  case (3 c cs x2 first rest n)
  then show ?case by (auto dest!: takeEscapes_length)
next
  case (4 c cs x2 first rest n x2a more rest')
  then show ?case by (auto dest!: takeEscapes_length)
qed

section \<open>\<open>lib/security.js\<close>\<close>

definition isSubPath :: "string \<Rightarrow> string \<Rightarrow> string \<Rightarrow> bool" where
  "isSubPath cwd parent child =
     (let relative = relative cwd parent child
      in relative = [] \<or>
         (relative \<noteq> [] \<and> \<not> startsWith relative ''..'' \<and> \<not> isAbsolute relative))"

section \<open>The \<open>ignore\<close> package\<close>

text \<open>
  \<open>lib/gitignoreParser.js\<close> delegates matching to the npm package \<^verbatim>\<open>ignore\<close>
  (version 5).  An instance is its list of rules in insertion order.  The translation of
  one pattern into a regular expression is not reproduced: the test of a compiled
  pattern against a path is the parameter \<open>makeRegex\<close> (pattern, then path).  Everything
  around it is modelled: the splitting of a file into patterns, the pattern check,
  negation, the rule loop in which later rules override earlier ones, the test of every
  parent directory before the path itself, and the check that rejects paths that are not
  relative.
\<close>

record Rule =
  pattern :: string
  negative :: bool

type_synonym Ignore = "Rule list"

text \<open>\<^verbatim>\<open>content.split(/\r?\n/g)\<close>\<close>

fun splitPattern :: "string \<Rightarrow> string list" where
  "splitPattern [] = [[]]"
| "splitPattern (c # cs) =
     (if c = CHR 0x0A then [] # splitPattern cs
      else if c = CHR 0x0D \<and> (case cs of [] \<Rightarrow> False | d # _ \<Rightarrow> d = CHR 0x0A)
        then [] # splitPattern (drop 1 cs)
      else (case splitPattern cs of
              [] \<Rightarrow> [[c]]
            | x # xs \<Rightarrow> (c # x) # xs))"

definition isWhitespace :: "char \<Rightarrow> bool" where
  "isWhitespace c = ((of_char c :: nat) \<in> {9, 10, 11, 12, 13, 32})"

text \<open>A pattern is kept unless it is empty, blank, a comment, or ends in a lone backslash.\<close>

definition checkPattern :: "string \<Rightarrow> bool" where
  "checkPattern p =
     (p \<noteq> [] \<and> \<not> list_all isWhitespace p
      \<and> \<not> (case rev p of
              [] \<Rightarrow> False
            | l # before \<Rightarrow> l = CHR 0x5C \<and> (case before of [] \<Rightarrow> True | b # _ \<Rightarrow> b \<noteq> CHR 0x5C))
      \<and> \<not> startsWith p ''#'')"

definition createRule :: "string \<Rightarrow> Rule" where
  "createRule p =
     (let negative = startsWith p ''!'';
          p1 = (if negative then drop 1 p else p);
          p2 = (if startsWith p1 [CHR 0x5C, CHR ''!''] then drop 1 p1 else p1);
          p3 = (if startsWith p2 [CHR 0x5C, CHR ''#''] then drop 1 p2 else p2)
      in \<lparr>pattern = p3, negative = negative\<rparr>)"

definition add :: "Ignore \<Rightarrow> string \<Rightarrow> Ignore" where
  "add ig content = ig @ map createRule (filter checkPattern (splitPattern content))"

text \<open>
  One round of the rule loop of \<^verbatim>\<open>_testOne\<close>; the state is the pair
  (\<open>ignored\<close>, \<open>unignored\<close>).
\<close>

definition testRule ::
  "(string \<Rightarrow> string \<Rightarrow> bool) \<Rightarrow> string \<Rightarrow> bool \<Rightarrow> bool \<times> bool \<Rightarrow> Rule \<Rightarrow> bool \<times> bool" where
  "testRule makeRegex path checkUnignored acc rule =
     (case acc of (ignored, unignored) \<Rightarrow>
        if (unignored = negative rule \<and> ignored \<noteq> unignored)
           \<or> (negative rule \<and> \<not> ignored \<and> \<not> unignored \<and> \<not> checkUnignored)
        then (ignored, unignored)
        else if makeRegex (pattern rule) path then (\<not> negative rule, negative rule)
        else (ignored, unignored))"

definition testOne ::
  "(string \<Rightarrow> string \<Rightarrow> bool) \<Rightarrow> Ignore \<Rightarrow> string \<Rightarrow> bool \<Rightarrow> bool \<times> bool" where
  "testOne makeRegex rules path checkUnignored =
     foldl (testRule makeRegex path checkUnignored) (False, False) rules"

text \<open>
  \<^verbatim>\<open>_t(path, cache, checkUnignored, slices)\<close>: the last slice is dropped; with none left
  the path itself is tested, otherwise the parent directory (the remaining slices, with a
  trailing separator) is tested first and an ignored parent decides.  The memo table of
  the package only stores results of this function and is left out.
\<close>

function ignore_t :: "(string \<Rightarrow> string \<Rightarrow> bool) \<Rightarrow> Ignore \<Rightarrow> string \<Rightarrow> bool \<Rightarrow> string list \<Rightarrow> bool \<times> bool" where
  "ignore_t makeRegex rules path checkUnignored slices =
     (let slices' = butlast slices
      in if slices' = [] then testOne makeRegex rules path checkUnignored
         else
           let parent = ignore_t makeRegex rules (joinWith ''/'' slices' @ ''/'') checkUnignored slices'
           in if fst parent then parent else testOne makeRegex rules path checkUnignored)"
  by pat_completeness auto

termination ignore_t
proof (relation "measure (\<lambda>(m, r, p, c, slices). length slices)", goal_cases)
  case 1
  show ?case by simp
next
  case (2 makeRegex rules path checkUnignored slices x)
  then show ?case by (cases slices) simp_all
qed

text \<open>\<^verbatim>\<open>REGEX_TEST_INVALID_PATH = /^\.*\/|^\.+$/\<close>\<close>

definition isNotRelative :: "string \<Rightarrow> bool" where
  "isNotRelative path =
     (case dropWhile (\<lambda>c. c = CHR ''.'') path of
        [] \<Rightarrow> path \<noteq> []
      | c # _ \<Rightarrow> c = CHR ''/'')"

definition ignores :: "(string \<Rightarrow> string \<Rightarrow> bool) \<Rightarrow> Ignore \<Rightarrow> string \<Rightarrow> exn + bool" where
  "ignores makeRegex rules path =
     (if path = [] then Inl TypeError
      else if isNotRelative path then Inl RangeError
      else Inr (fst (ignore_t makeRegex rules path False (splitOn CHR ''/'' path))))"

text \<open>
  For a pattern made of ordinary characters only (no separator, no glob or escape
  character, no surrounding blanks) the package compiles \<open>name\<close> to
  \<^verbatim>\<open>/(?:^|\/)name(?=$|\/$)/i\<close>: the path, or the path without one final separator, ends
  in a segment equal to the name up to letter case.  This instance of the parameter is
  used where a concrete rule set is evaluated.
\<close>

definition endsInSegment :: "string \<Rightarrow> string \<Rightarrow> bool" where
  "endsInSegment name path =
     (length name \<le> length path
      \<and> drop (length path - length name) path = name
      \<and> (length path = length name \<or> path ! (length path - length name - 1) = CHR ''/''))"

definition makeRegexLiteral :: "string \<Rightarrow> string \<Rightarrow> bool" where
  "makeRegexLiteral name path =
     (let n = toLowerCase name; p = toLowerCase path
      in endsInSegment n p \<or> (p \<noteq> [] \<and> last p = CHR ''/'' \<and> endsInSegment n (butlast p)))"

section \<open>The environment of a request\<close>

text \<open>
  What the handler reads from outside: the configured root, the working directory of the
  process, the file system as seen through the synchronous \<^verbatim>\<open>node:fs\<close> calls (\<open>None\<close>
  is a thrown error), the MIME lookup of the \<^verbatim>\<open>mime\<close> package, the pattern matcher of
  the \<^verbatim>\<open>ignore\<close> package and the collation behind \<^verbatim>\<open>localeCompare\<close>.
\<close>

record Stats =
  st_isDirectory :: bool
  st_size :: nat
  st_mtime :: nat

record env =
  ROOT_DIR :: string
  cwd :: string
  existsSync :: "string \<Rightarrow> bool"
  statSync :: "string \<Rightarrow> Stats option"
  readdirSync :: "string \<Rightarrow> string list option"
  readFileSync :: "string \<Rightarrow> string option"
  getType :: "string \<Rightarrow> string option"
  makeRegex :: "string \<Rightarrow> string \<Rightarrow> bool"
  localeCompare :: "string \<Rightarrow> string \<Rightarrow> int"

text \<open>Every file-system call is recorded, in order.\<close>

datatype fscall = ExistsSync string | ReadFileSync string | StatSync string | ReaddirSync string

record state =
  gitignoreCache :: "string \<rightharpoonup> Ignore"
  trace :: "fscall list"

definition logCall :: "fscall \<Rightarrow> state \<Rightarrow> state" where
  "logCall c st = st\<lparr>trace := trace st @ [c]\<rparr>"

definition initialState :: state where
  "initialState = \<lparr>gitignoreCache = Map.empty, trace = []\<rparr>"

section \<open>\<open>lib/gitignoreParser.js\<close>\<close>

text \<open>
  The body of the \<^verbatim>\<open>while\<close> loop of \<open>loadGitignoreRules\<close>, from one directory up to the
  file-system root.  \<open>checkedDirs\<close> is the set of visited directories.
\<close>

definition readGitignore :: "env \<Rightarrow> string \<Rightarrow> Ignore \<times> fscall list \<Rightarrow> Ignore \<times> fscall list" where
  "readGitignore e currentDir acc =
     (case acc of (ig, tr) \<Rightarrow>
        let gitignorePath = join currentDir ''.gitignore''
        in if existsSync e gitignorePath then
             (case readFileSync e gitignorePath of
                Some gitignoreContent \<Rightarrow>
                  (add ig gitignoreContent, tr @ [ExistsSync gitignorePath, ReadFileSync gitignorePath])
              | None \<Rightarrow> (ig, tr @ [ExistsSync gitignorePath, ReadFileSync gitignorePath]))
           else (ig, tr @ [ExistsSync gitignorePath]))"

function loadLoop :: "env \<Rightarrow> string \<Rightarrow> string list \<Rightarrow> Ignore \<times> fscall list \<Rightarrow> Ignore \<times> fscall list" where
  "loadLoop e currentDir checkedDirs acc =
     (if currentDir = [] \<or> currentDir \<in> set checkedDirs then acc
      else
        let acc' = readGitignore e currentDir acc;
            parentDir = dirname currentDir;
            isFilesystemRoot = (parentDir = currentDir)
        in if isFilesystemRoot then acc'
           else loadLoop e parentDir (currentDir # checkedDirs) acc')"
  by pat_completeness auto

text \<open>
  The loop ends: \<open>dirname\<close> either returns a fixed point (\<open>.\<close> or \<open>/\<close>) or a
  strictly shorter path.
\<close>

definition dirMeasure :: "string \<Rightarrow> nat" where
  "dirMeasure p = 2 * length p + (if p = ''.'' \<or> p = ''/'' then 0 else 1)"

lemma dropWhile_shorter: "xs \<noteq> [] \<Longrightarrow> P (hd xs) \<Longrightarrow> length (dropWhile P xs) < length xs"
  using length_dropWhile_le [of P "tl xs"] by (cases xs) auto

lemma beforeLast_shorter:
  assumes "dropWhile (\<lambda>x. x \<noteq> CHR ''/'') (dropWhile (\<lambda>x. x = CHR ''/'') xs) \<noteq> []"
  shows "length (dropWhile (\<lambda>x. x \<noteq> CHR ''/'') (dropWhile (\<lambda>x. x = CHR ''/'') xs)) < length xs"
proof -
  let ?r = "dropWhile (\<lambda>x. x = CHR ''/'') xs"
  have r: "?r \<noteq> []"
  proof
    assume "?r = []"
    then have "dropWhile (\<lambda>x. x \<noteq> CHR ''/'') ?r = []" by (simp only: dropWhile.simps)
    with assms show False by contradiction
  qed
  then have "hd ?r \<noteq> CHR ''/''" using hd_dropWhile [of "\<lambda>x. x = CHR ''/''" xs] by simp
  with r have "length (dropWhile (\<lambda>x. x \<noteq> CHR ''/'') ?r) < length ?r"
    by (rule dropWhile_shorter)
  also have "length ?r \<le> length xs" by (rule length_dropWhile_le)
  finally show ?thesis .
qed

lemma dirname_Cons:
  "dirname (c # rest) =
     (let b = dropWhile (\<lambda>x. x \<noteq> CHR ''/'') (dropWhile (\<lambda>x. x = CHR ''/'') (rev rest))
      in if b = [] then (if c = CHR ''/'' then ''/'' else ''.'')
         else if c = CHR ''/'' \<and> length b = 1 then ''//''
         else take (length b) (c # rest))"
  by (simp only: dirname_def list.case Let_def)

lemma dirname_measure:
  assumes "p \<noteq> []" "dirname p \<noteq> p"
  shows "dirMeasure (dirname p) < dirMeasure p"
proof -
  from assms(1) obtain c rest where p: "p = c # rest" by (cases p) simp_all
  define b where "b = dropWhile (\<lambda>x. x \<noteq> CHR ''/'') (dropWhile (\<lambda>x. x = CHR ''/'') (rev rest))"
  have d: "dirname p = (if b = [] then (if c = CHR ''/'' then ''/'' else ''.'')
         else if c = CHR ''/'' \<and> length b = 1 then ''//''
         else take (length b) (c # rest))"
    unfolding p dirname_Cons b_def Let_def ..
  show ?thesis
  proof (cases "b = []")
    case True
    with d have d': "dirname p = (if c = CHR ''/'' then ''/'' else ''.'')" by simp
    show ?thesis
    proof (cases rest)
      case Nil
      show ?thesis
      proof (cases "c = CHR ''/''")
        case True
        with d' p Nil assms(2) show ?thesis by simp
      next
        case False
        with d' have "dirname p = ''.''" by simp
        moreover from this assms(2) have "p \<noteq> ''.''" by auto
        moreover from p Nil False have "p \<noteq> ''/''" by simp
        ultimately show ?thesis using p Nil by (simp add: dirMeasure_def)
      qed
    next
      case (Cons a list)
      have "dirMeasure (dirname p) \<le> 3" using d' by (simp add: dirMeasure_def)
      moreover have "4 \<le> dirMeasure p" using p Cons by (simp add: dirMeasure_def)
      ultimately show ?thesis by linarith
    qed
  next
    case False
    then have len: "length b < length rest"
      using beforeLast_shorter [of "rev rest"] unfolding b_def by simp
    show ?thesis
    proof (cases "c = CHR ''/'' \<and> length b = 1")
      case True
      with False d have "dirname p = ''//''" by simp
      then have "dirMeasure (dirname p) = 5" by (simp add: dirMeasure_def)
      moreover have "6 \<le> dirMeasure p" using len True p by (simp add: dirMeasure_def)
      ultimately show ?thesis by linarith
    next
      case F2: False
      with False d have "dirname p = take (length b) (c # rest)" by simp
      then have "length (dirname p) \<le> length b" by simp
      then have "dirMeasure (dirname p) \<le> 2 * length b + 1" by (simp add: dirMeasure_def)
      moreover have "2 * length rest + 2 \<le> dirMeasure p" using p by (simp add: dirMeasure_def)
      ultimately show ?thesis using len by linarith
    qed
  qed
qed

termination loadLoop
proof (relation "measure (\<lambda>(e, currentDir, checkedDirs, acc). dirMeasure currentDir)", goal_cases)
  case 1
  show ?case by simp
next
  case (2 e currentDir checkedDirs acc x xa xb)
  then have "currentDir \<noteq> []" "dirname currentDir \<noteq> currentDir" by simp_all
  then have "dirMeasure (dirname currentDir) < dirMeasure currentDir" by (rule dirname_measure)
  with 2 show ?case by simp
qed

definition loadGitignoreRules :: "env \<Rightarrow> state \<Rightarrow> string \<Rightarrow> Ignore \<times> state" where
  "loadGitignoreRules e st rootDir =
     (case gitignoreCache st rootDir of
        Some ig \<Rightarrow> (ig, st)
      | None \<Rightarrow>
          (case loadLoop e rootDir [] (add [] ''.git'', trace st) of
             (ig, tr) \<Rightarrow>
               (ig, st\<lparr>gitignoreCache := (gitignoreCache st)(rootDir \<mapsto> ig), trace := tr\<rparr>)))"

definition shouldIgnoreFile :: "env \<Rightarrow> state \<Rightarrow> string \<Rightarrow> string \<Rightarrow> (exn + bool) \<times> state" where
  "shouldIgnoreFile e st filePath rootDir =
     (case loadGitignoreRules e st rootDir of
        (ig, st') \<Rightarrow>
          let relativePath = relative (cwd e) rootDir filePath
          in if startsWith relativePath ''..'' then (Inr False, st')
             else
               let isRootDirectory = (relativePath = [] \<or> relativePath = ''.'')
               in if isRootDirectory then (Inr False, st')
                  else
                    let normalizedPath = map (\<lambda>c. if c = CHR 0x5C then CHR ''/'' else c) relativePath
                    in (ignores (makeRegex e) ig normalizedPath, st'))"

section \<open>\<open>lib/languageDetector.js\<close>\<close>

definition languages :: "(string \<times> string) list" where
  "languages =
     [(''.js'', ''javascript''), (''.ts'', ''typescript''), (''.py'', ''python''),
      (''.java'', ''java''), (''.cpp'', ''cpp''), (''.c'', ''c''), (''.css'', ''css''),
      (''.html'', ''html''), (''.xml'', ''xml''), (''.json'', ''json''), (''.yml'', ''yaml''),
      (''.yaml'', ''yaml''), (''.sh'', ''bash''), (''.php'', ''php''), (''.rb'', ''ruby''),
      (''.go'', ''go''), (''.rs'', ''rust''), (''.sql'', ''sql'')]"

definition detectLanguage :: "string \<Rightarrow> string \<Rightarrow> string option" where
  "detectLanguage filePath content =
     (let ext = toLowerCase (extname filePath)
      in case map_of languages ext of
           Some l \<Rightarrow> Some l
         | None \<Rightarrow>
             if ext = [] then
               let firstLine = (case splitOn (CHR 0x0A) content of [] \<Rightarrow> [] | l # _ \<Rightarrow> l)
               in if includesStr firstLine ''#!/usr/bin/env node'' \<or> includesStr firstLine ''#!/usr/bin/node''
                  then Some ''javascript''
                  else if includesStr firstLine ''#!/usr/bin/env python'' \<or> includesStr firstLine ''#!/usr/bin/python''
                  then Some ''python''
                  else if includesStr firstLine ''#!/bin/bash'' \<or> includesStr firstLine ''#!/bin/sh''
                  then Some ''bash''
                  else if includesStr content ''function '' \<or> includesStr content ''const ''
                          \<or> includesStr content ''let '' \<or> includesStr content ''var ''
                          \<or> includesStr content ''class '' \<or> includesStr content ''console.log''
                  then Some ''javascript''
                  else if includesStr content ''def '' \<or> includesStr content ''import ''
                          \<or> includesStr content ''from '' \<or> includesStr content ''print(''
                  then Some ''python''
                  else None
             else None)"

section \<open>\<open>lib/fileUtils.js\<close>\<close>

record FileInfo =
  name :: string
  isDirectory :: bool
  fsize :: "nat option"
  modified :: nat
  extension :: string
  ftype :: string

definition types :: "(string \<times> string) list" where
  "types =
     [(''.md'', ''markdown''), (''.html'', ''html''), (''.htm'', ''html''),
      (''.js'', ''javascript''), (''.ts'', ''typescript''), (''.json'', ''json''),
      (''.css'', ''css''), (''.py'', ''python''), (''.txt'', ''text''), (''.yml'', ''yaml''),
      (''.yaml'', ''yaml'')]"

definition getFileType :: "string \<Rightarrow> string" where
  "getFileType ext = (case map_of types ext of Some ty \<Rightarrow> ty | None \<Rightarrow> ''file'')"

definition getFileInfo :: "env \<Rightarrow> state \<Rightarrow> string \<Rightarrow> (exn + FileInfo) \<times> state" where
  "getFileInfo e st filePath =
     (case statSync e filePath of
        None \<Rightarrow> (Inl FsError, logCall (StatSync filePath) st)
      | Some stats \<Rightarrow>
          let ext = toLowerCase (extname filePath)
          in (Inr \<lparr>name = basename filePath,
                   isDirectory = st_isDirectory stats,
                   fsize = (if st_isDirectory stats then None else Some (st_size stats)),
                   modified = st_mtime stats,
                   extension = ext,
                   ftype = (if st_isDirectory stats then ''directory'' else getFileType ext)\<rparr>,
              logCall (StatSync filePath) st))"

section \<open>\<open>server.js\<close>\<close>

text \<open>
  The pages produced by \<open>lib/htmlGenerator.js\<close> are kept symbolic: a body records which
  generator was called and with which arguments.  \<open>SendFile\<close> is the hand-over to
  \<^verbatim>\<open>res.sendFile\<close>, which streams the file itself.  \<open>Uncaught\<close> is an exception that
  leaves the handler.
\<close>

datatype body =
    Text string
  | DirectoryHTML string "FileInfo list" string string
  | FileHTML string string string bool "string option" bool

datatype response = Send nat body | SendFile string

datatype outcome = Responded response | Uncaught exn

text \<open>\<^verbatim>\<open>.filter(filePath => !shouldIgnoreFile(filePath, ROOT_DIR))\<close>\<close>

fun filterIgnored :: "env \<Rightarrow> state \<Rightarrow> string list \<Rightarrow> (exn + string list) \<times> state" where
  "filterIgnored e st [] = (Inr [], st)"
| "filterIgnored e st (filePath # rest) =
     (case shouldIgnoreFile e st filePath (ROOT_DIR e) of
        (Inl x, st') \<Rightarrow> (Inl x, st')
      | (Inr ignored, st') \<Rightarrow>
          (case filterIgnored e st' rest of
             (Inl x, st'') \<Rightarrow> (Inl x, st'')
           | (Inr kept, st'') \<Rightarrow> (Inr (if ignored then kept else filePath # kept), st'')))"

text \<open>\<^verbatim>\<open>.map(filePath => getFileInfo(filePath))\<close>\<close>

fun mapFileInfo :: "env \<Rightarrow> state \<Rightarrow> string list \<Rightarrow> (exn + FileInfo list) \<times> state" where
  "mapFileInfo e st [] = (Inr [], st)"
| "mapFileInfo e st (filePath # rest) =
     (case getFileInfo e st filePath of
        (Inl x, st') \<Rightarrow> (Inl x, st')
      | (Inr info, st') \<Rightarrow>
          (case mapFileInfo e st' rest of
             (Inl x, st'') \<Rightarrow> (Inl x, st'')
           | (Inr infos, st'') \<Rightarrow> (Inr (info # infos), st'')))"

text \<open>
  \<^verbatim>\<open>Array.prototype.sort(compare)\<close> is a stable sort; it is modelled by stable
  insertion (an element goes in front of the first element it does not follow).
\<close>

fun insertBy :: "('a \<Rightarrow> 'a \<Rightarrow> int) \<Rightarrow> 'a \<Rightarrow> 'a list \<Rightarrow> 'a list" where
  "insertBy cmp x [] = [x]"
| "insertBy cmp x (y # ys) = (if cmp x y \<le> 0 then x # y # ys else y # insertBy cmp x ys)"

definition sortBy :: "('a \<Rightarrow> 'a \<Rightarrow> int) \<Rightarrow> 'a list \<Rightarrow> 'a list" where
  "sortBy cmp xs = foldr (insertBy cmp) xs []"

definition compareEntries :: "env \<Rightarrow> FileInfo \<Rightarrow> FileInfo \<Rightarrow> int" where
  "compareEntries e a b =
     (if isDirectory a \<and> \<not> isDirectory b then - 1
      else if \<not> isDirectory a \<and> isDirectory b then 1
      else localeCompare e (name a) (name b))"

definition serveDirectory :: "env \<Rightarrow> state \<Rightarrow> string \<Rightarrow> string \<Rightarrow> (exn + response) \<times> state" where
  "serveDirectory e st requestedPath fullPath =
     (let st1 = logCall (ReaddirSync fullPath) st
      in case readdirSync e fullPath of
           None \<Rightarrow> (Inl FsError, st1)
         | Some entries \<Rightarrow>
             let visible = filter (\<lambda>file. \<not> startsWith file ''.'') entries;
                 paths = map (\<lambda>file. join fullPath file) visible
             in case filterIgnored e st1 paths of
                  (Inl x, st2) \<Rightarrow> (Inl x, st2)
                | (Inr kept, st2) \<Rightarrow>
                    (case mapFileInfo e st2 kept of
                       (Inl x, st3) \<Rightarrow> (Inl x, st3)
                     | (Inr infos, st3) \<Rightarrow>
                         (Inr (Send 200
                                (DirectoryHTML fullPath (sortBy (compareEntries e) infos)
                                   (if requestedPath = ''/'' then [] else requestedPath)
                                   (ROOT_DIR e))),
                          st3)))"

definition textRenderable :: "string option \<Rightarrow> bool" where
  "textRenderable mimeType =
     (case mimeType of
        None \<Rightarrow> False
      | Some m \<Rightarrow> m \<noteq> [] \<and> (startsWith m ''text/'' \<or> m = ''application/javascript''
                             \<or> m = ''application/json''))"

definition serveFile :: "env \<Rightarrow> state \<Rightarrow> string \<Rightarrow> string \<Rightarrow> (exn + response) \<times> state" where
  "serveFile e st requestedPath fullPath =
     (let ext = toLowerCase (extname fullPath);
          fileName = basename fullPath;
          mimeType = getType e fullPath
      in if textRenderable mimeType then
           (case readFileSync e fullPath of
              None \<Rightarrow> (Inl FsError, logCall (ReadFileSync fullPath) st)
            | Some content \<Rightarrow>
                let isMarkdown = (ext = ''.md'');
                    isHtml = (ext = ''.html'' \<or> ext = ''.htm'');
                    language = detectLanguage fullPath content
                in (Inr (Send 200 (FileHTML fileName content requestedPath isMarkdown language isHtml)),
                    logCall (ReadFileSync fullPath) st))
         else if isAbsolute fullPath then (Inr (SendFile fullPath), st)
         else (Inl TypeError, st))"

text \<open>The body of the \<^verbatim>\<open>try\<close> block.\<close>

definition serve :: "env \<Rightarrow> state \<Rightarrow> string \<Rightarrow> string \<Rightarrow> (exn + response) \<times> state" where
  "serve e st requestedPath fullPath =
     (let st1 = logCall (ExistsSync fullPath) st
      in if \<not> existsSync e fullPath then (Inr (Send 404 (Text ''File not found'')), st1)
         else
           let st2 = logCall (StatSync fullPath) st1
           in case statSync e fullPath of
                None \<Rightarrow> (Inl FsError, st2)
              | Some stats \<Rightarrow>
                  if st_isDirectory stats then serveDirectory e st2 requestedPath fullPath
                  else serveFile e st2 requestedPath fullPath)"

text \<open>
  The route handler of \<^verbatim>\<open>app.get('*', ...)\<close>, applied to \<^verbatim>\<open>req.path\<close>.  The decoding,
  the containment check and the first ignore check run outside the \<^verbatim>\<open>try\<close> block; an
  exception inside it becomes the 500 response.
\<close>

definition handler :: "env \<Rightarrow> state \<Rightarrow> string \<Rightarrow> outcome \<times> state" where
  "handler e st reqPath =
     (case decodeURIComponent reqPath of
        Inl x \<Rightarrow> (Uncaught x, st)
      | Inr requestedPath \<Rightarrow>
          let fullPath = join (ROOT_DIR e) requestedPath
          in if \<not> isSubPath (cwd e) (ROOT_DIR e) fullPath \<and> fullPath \<noteq> ROOT_DIR e
             then (Responded (Send 403 (Text ''Access denied: Path outside of root directory'')), st)
             else
               (case shouldIgnoreFile e st fullPath (ROOT_DIR e) of
                  (Inl x, st1) \<Rightarrow> (Uncaught x, st1)
                | (Inr True, st1) \<Rightarrow> (Responded (Send 404 (Text ''File not found'')), st1)
                | (Inr False, st1) \<Rightarrow>
                    (case serve e st1 requestedPath fullPath of
                       (Inl error, st2) \<Rightarrow> (Responded (Send 500 (Text ''Internal server error'')), st2)
                     | (Inr r, st2) \<Rightarrow> (Responded r, st2))))"

section \<open>A sample installation\<close>

text \<open>
  A collation standing in for \<^verbatim>\<open>localeCompare\<close> in the examples: character codes,
  left to right.
\<close>

fun codeCompare :: "string \<Rightarrow> string \<Rightarrow> int" where
  "codeCompare [] [] = 0"
| "codeCompare [] (y # ys) = - 1"
| "codeCompare (x # xs) [] = 1"
| "codeCompare (x # xs) (y # ys) =
     (if (of_char x :: nat) < of_char y then - 1
      else if (of_char y :: nat) < of_char x then 1
      else codeCompare xs ys)"

text \<open>A few entries of the table behind \<^verbatim>\<open>mime.getType\<close>.\<close>

definition sampleMime :: "string \<Rightarrow> string option" where
  "sampleMime p =
     map_of [(''.txt'', ''text/plain''), (''.md'', ''text/markdown''), (''.html'', ''text/html''),
             (''.js'', ''application/javascript''), (''.json'', ''application/json''),
             (''.png'', ''image/png'')]
       (toLowerCase (extname p))"

definition dirStats :: Stats where
  "dirStats = \<lparr>st_isDirectory = True, st_size = 4096, st_mtime = 0\<rparr>"

definition fileStats :: "nat \<Rightarrow> Stats" where
  "fileStats n = \<lparr>st_isDirectory = False, st_size = n, st_mtime = 0\<rparr>"

text \<open>
  Root \<open>/srv/docs\<close> holding \<open>b.txt\<close>, the directory \<open>A\<close>, \<open>a.txt\<close>, a script \<open>run\<close>
  without extension and an image; no ignore file anywhere.
\<close>

definition sampleFiles :: "(string \<times> string) list" where
  "sampleFiles =
     [(''/srv/docs/b.txt'', ''bee''), (''/srv/docs/a.txt'', ''ay''),
      (''/srv/docs/A/run'', ''function f(){}''), (''/srv/docs/A/logo.png'', ''PNG'')]"

definition sampleDirs :: "(string \<times> string list) list" where
  "sampleDirs =
     [(''/srv/docs'', [''b.txt'', ''A'', ''a.txt'']), (''/srv/docs/'', [''b.txt'', ''A'', ''a.txt'']),
      (''/srv/docs/A'', [''run'', ''logo.png''])]"

definition sampleEnv :: env where
  "sampleEnv =
     \<lparr>ROOT_DIR = ''/srv/docs'', cwd = ''/srv/docs'',
      existsSync = (\<lambda>p. p \<in> set (map fst sampleFiles) \<or> p \<in> set (map fst sampleDirs)),
      statSync = (\<lambda>p. case map_of sampleFiles p of
                         Some c \<Rightarrow> Some (fileStats (length c))
                       | None \<Rightarrow> (if p \<in> set (map fst sampleDirs) then Some dirStats else None)),
      readdirSync = map_of sampleDirs,
      readFileSync = map_of sampleFiles,
      getType = sampleMime,
      makeRegex = makeRegexLiteral,
      localeCompare = codeCompare\<rparr>"

text \<open>The same tree with an ignore file \<open>/srv/docs/.gitignore\<close> of the given content.\<close>

definition withGitignore :: "string \<Rightarrow> env \<Rightarrow> env" where
  "withGitignore content e =
     e\<lparr>existsSync := (\<lambda>p. p = ''/srv/docs/.gitignore'' \<or> existsSync e p),
       readFileSync := (\<lambda>p. if p = ''/srv/docs/.gitignore'' then Some content else readFileSync e p),
       statSync := (\<lambda>p. if p = ''/srv/docs/.gitignore'' then Some (fileStats (length content))
                         else statSync e p)\<rparr>"

text \<open>An installation whose ignore file hides \<open>a.txt\<close>.\<close>

definition ignoringEnv :: env where
  "ignoringEnv = withGitignore ''a.txt'' sampleEnv"

text \<open>An installation whose ignore file re-includes \<open>.git\<close>.\<close>

definition negatingEnv :: env where
  "negatingEnv = withGitignore ''!.git'' sampleEnv"

section \<open>Specification vocabulary\<close>

text \<open>
  Lexical reduction of an absolute path, in the words of the specification: redundant
  separators and \<open>.\<close> segments disappear, a \<open>..\<close> segment removes the segment before it
  (and has no effect at the top).  A path lies within a root when the reduced root is a
  prefix of the reduced path.
\<close>

definition reduceStep :: "string list \<Rightarrow> string \<Rightarrow> string list" where
  "reduceStep stack seg =
     (if seg = [] \<or> seg = ''.'' then stack
      else if seg = ''..'' then butlast stack
      else stack @ [seg])"

definition lexicalReduce :: "string \<Rightarrow> string list" where
  "lexicalReduce p = foldl reduceStep [] (splitOn CHR ''/'' p)"

definition lexicallyWithin :: "string \<Rightarrow> string \<Rightarrow> bool" where
  "lexicallyWithin root p = prefix (lexicalReduce root) (lexicalReduce p)"

text \<open>A segment that survives normalization.\<close>

definition cleanSeg :: "string \<Rightarrow> bool" where
  "cleanSeg s = (s \<noteq> [] \<and> s \<noteq> ''.'' \<and> s \<noteq> ''..'' \<and> CHR ''/'' \<notin> set s)"

text \<open>
  The implicit rule, and the states in which every cached rule set begins with it.  The
  string that the ignore package tests for the segment at index \<open>i\<close> of a relative path
  is the path up to that segment, followed by a separator unless the segment is the last.
\<close>

definition gitRule :: Rule where
  "gitRule = \<lparr>pattern = ''.git'', negative = False\<rparr>"

definition cacheBuilt :: "state \<Rightarrow> bool" where
  "cacheBuilt st = (\<forall>rootDir ig. gitignoreCache st rootDir = Some ig \<longrightarrow> (\<exists>rest. ig = gitRule # rest))"

definition testedPrefix :: "string list \<Rightarrow> nat \<Rightarrow> string" where
  "testedPrefix slices i =
     joinWith ''/'' (take (Suc i) slices) @ (if Suc i < length slices then ''/'' else [])"

text \<open>
  The classification of a file without extension, in the words of the specification: an
  ordered table of rules, each a set of substrings and a language; the first rule with a
  substring present decides.  Shebang rules read the first line, keyword rules the whole
  content.
\<close>

definition shebangRules :: "(string list \<times> string) list" where
  "shebangRules =
     [([''#!/usr/bin/env node'', ''#!/usr/bin/node''], ''javascript''),
      ([''#!/usr/bin/env python'', ''#!/usr/bin/python''], ''python''),
      ([''#!/bin/bash'', ''#!/bin/sh''], ''bash'')]"

definition javascriptKeywords :: "string list" where
  "javascriptKeywords = [''function '', ''const '', ''let '', ''var '', ''class '', ''console.log'']"

definition pythonKeywords :: "string list" where
  "pythonKeywords = [''def '', ''import '', ''from '', ''print('']"

fun firstMatch :: "(string list \<times> string) list \<Rightarrow> string \<Rightarrow> string option" where
  "firstMatch [] text = None"
| "firstMatch ((subs, lang) # rules) text =
     (if list_ex (includesStr text) subs then Some lang else firstMatch rules text)"

definition classifyNoExtension :: "string \<Rightarrow> string option" where
  "classifyNoExtension content =
     (case firstMatch shebangRules (takeWhile (\<lambda>c. c \<noteq> CHR 0x0A) content) of
        Some lang \<Rightarrow> Some lang
      | None \<Rightarrow>
          firstMatch [(javascriptKeywords, ''javascript''), (pythonKeywords, ''python'')] content)"

section \<open>Properties of the path functions\<close>

subsection \<open>Strings\<close>

lemma splitOn_not_Nil [simp]: "splitOn sep s \<noteq> []"
  by (induction s) (simp_all split: list.splits)

lemma splitOn_append: "splitOn sep (a @ sep # b) = splitOn sep a @ splitOn sep b"
  by (induction a) (simp_all split: list.splits)

lemma splitOn_no_sep: "s \<in> set (splitOn sep p) \<Longrightarrow> sep \<notin> set s"
proof (induction p arbitrary: s)
  case Nil
  then show ?case by simp
next
  case (Cons c p)
  show ?case
  proof (cases "c = sep")
    case True
    with Cons show ?thesis by auto
  next
    case False
    obtain x xs where sp: "splitOn sep p = x # xs" by (cases "splitOn sep p") simp_all
    with False Cons.prems have "s = c # x \<or> s \<in> set xs" by simp
    then show ?thesis
    proof
      assume "s = c # x"
      moreover have "sep \<notin> set x" using Cons.IH [of x] sp by simp
      ultimately show ?thesis using False by simp
    next
      assume "s \<in> set xs"
      then show ?thesis using Cons.IH [of s] sp by simp
    qed
  qed
qed

lemma splitOn_plain: "sep \<notin> set s \<Longrightarrow> splitOn sep s = [s]"
  by (induction s) (auto split: list.splits)

lemma splitOn_first:
  "(case splitOn sep s of [] \<Rightarrow> [] | l # _ \<Rightarrow> l) = takeWhile (\<lambda>c. c \<noteq> sep) s"
  by (induction s) (auto split: list.splits)

lemma splitOn_joinWith:
  "segs \<noteq> [] \<Longrightarrow> \<forall>s \<in> set segs. sep \<notin> set s \<Longrightarrow> splitOn sep (joinWith [sep] segs) = segs"
proof (induction "[sep]" segs rule: joinWith.induct)
  case 1
  then show ?case by simp
next
  case (2 x)
  then show ?case by (simp add: splitOn_plain)
next
  case (3 x y ys)
  then show ?case by (simp add: splitOn_append splitOn_plain)
qed

lemma joinWith_Cons: "joinWith sep (x # xs) = (if xs = [] then x else x @ sep @ joinWith sep xs)"
  by (cases xs) simp_all

lemma joinWith_eq_Nil: "\<forall>s \<in> set segs. s \<noteq> [] \<Longrightarrow> joinWith sep segs = [] \<longleftrightarrow> segs = []"
  by (cases segs) (simp_all add: joinWith_Cons)

lemma startsWith_Nil [simp]: "startsWith [] p \<longleftrightarrow> p = []"
  by (auto simp: startsWith_def)

lemma startsWith_append:
  "length p \<le> length a \<Longrightarrow> startsWith (a @ b) p = startsWith a p"
  by (simp add: startsWith_def)

subsection \<open>Normalization\<close>

lemma normalizeSegs_append:
  "normalizeSegs a res (xs @ ys) = normalizeSegs a (rev (normalizeSegs a res xs)) ys"
  by (induction a res xs rule: normalizeSegs.induct) (auto split: list.splits)

lemma cleanSeg_simps:
  "cleanSeg s \<Longrightarrow> s \<noteq> []" "cleanSeg s \<Longrightarrow> s \<noteq> ''.''" "cleanSeg s \<Longrightarrow> s \<noteq> ''..''"
  "cleanSeg s \<Longrightarrow> CHR ''/'' \<notin> set s"
  unfolding cleanSeg_def by blast+

lemma normalizeSegs_clean:
  "list_all cleanSeg xs \<Longrightarrow> normalizeSegs a res xs = rev res @ xs"
proof (induction xs arbitrary: res)
  case Nil
  then show ?case by simp
next
  case (Cons x xs)
  then have "x \<noteq> []" "x \<noteq> ''.''" "x \<noteq> ''..''" by (simp_all add: cleanSeg_simps)
  with Cons show ?case by simp
qed

lemma normalizeSegs_abs_clean:
  "list_all cleanSeg res \<Longrightarrow> \<forall>s \<in> set xs. CHR ''/'' \<notin> set s \<Longrightarrow>
   list_all cleanSeg (normalizeSegs False res xs)"
proof (induction xs arbitrary: res)
  case Nil
  then show ?case by simp
next
  case (Cons s ss)
  then have ss: "\<forall>s \<in> set ss. CHR ''/'' \<notin> set s" and s: "CHR ''/'' \<notin> set s" by simp_all
  consider (skip) "s = [] \<or> s = ''.''" | (up) "s \<noteq> []" "s \<noteq> ''.''" "s = ''..''" | (seg) "cleanSeg s"
    using s unfolding cleanSeg_def by blast
  then show ?case
  proof cases
    case skip
    with Cons.IH [OF Cons.prems(1) ss] show ?thesis by auto
  next
    case up
    show ?thesis
    proof (cases res)
      case Nil
      with up Cons.IH [of "[]"] ss show ?thesis by simp
    next
      case (Cons r rs)
      with Cons.prems(1) have rs: "list_all cleanSeg rs" and "r \<noteq> ''..''"
        by (simp_all add: cleanSeg_simps)
      with up Cons Cons.IH [OF rs ss] show ?thesis by simp
    qed
  next
    case seg
    then have "s \<noteq> []" "s \<noteq> ''.''" "s \<noteq> ''..''" by (simp_all add: cleanSeg_simps)
    moreover have "list_all cleanSeg (s # res)" using seg Cons.prems(1) by simp
    ultimately show ?thesis using Cons.IH [of "s # res"] ss by simp
  qed
qed

lemma butlast_rev_Cons: "butlast (rev (r # rs)) = rev rs"
  by simp

lemma normalizeSegs_reduce:
  "''..'' \<notin> set res \<Longrightarrow> normalizeSegs False res segs = foldl reduceStep (rev res) segs"
proof (induction segs arbitrary: res)
  case Nil
  then show ?case by simp
next
  case (Cons s ss)
  consider (skip) "s = [] \<or> s = ''.''" | (up) "s \<noteq> []" "s \<noteq> ''.''" "s = ''..''"
    | (seg) "s \<noteq> []" "s \<noteq> ''.''" "s \<noteq> ''..''"
    by blast
  then show ?case
  proof cases
    case skip
    with Cons show ?thesis by (auto simp: reduceStep_def)
  next
    case up
    show ?thesis
    proof (cases res)
      case Nil
      with up Cons.IH [of "[]"] show ?thesis by (simp add: reduceStep_def)
    next
      case (Cons r rs)
      with Cons.prems have "r \<noteq> ''..''" "''..'' \<notin> set rs" by auto
      with up Cons Cons.IH [of rs] show ?thesis by (simp add: reduceStep_def)
    qed
  next
    case seg
    with Cons.prems have "''..'' \<notin> set (s # res)" by simp
    with seg Cons.IH [of "s # res"] show ?thesis by (simp add: reduceStep_def)
  qed
qed

lemma lexicalReduce_eq: "lexicalReduce p = normalizeSegs False [] (splitOn CHR ''/'' p)"
  by (simp add: lexicalReduce_def normalizeSegs_reduce)

lemma lexicalReduce_clean: "list_all cleanSeg (lexicalReduce p)"
  unfolding lexicalReduce_eq
  by (rule normalizeSegs_abs_clean) (simp_all add: splitOn_no_sep)

subsection \<open>Resolution and relative paths\<close>

lemma isAbsolute_Cons [simp]: "isAbsolute (c # cs) \<longleftrightarrow> c = CHR ''/''"
  by (simp add: isAbsolute_def)

lemma isAbsolute_Nil [simp]: "\<not> isAbsolute []"
  by (simp add: isAbsolute_def)

lemma resolve_abs:
  "isAbsolute p \<Longrightarrow> resolve wd p = ''/'' @ joinWith ''/'' (lexicalReduce p)"
  by (simp add: resolve_def lexicalReduce_eq Let_def)

lemma filter_clean: "list_all cleanSeg segs \<Longrightarrow> filter (\<lambda>s. s \<noteq> []) segs = segs"
  by (induction segs) (simp_all add: cleanSeg_simps)

lemma pathSegments_joined:
  assumes "list_all cleanSeg segs"
  shows "pathSegments (''/'' @ joinWith ''/'' segs) = segs"
proof (cases "segs = []")
  case True
  then show ?thesis by (simp add: pathSegments_def)
next
  case False
  have "\<forall>s \<in> set segs. CHR ''/'' \<notin> set s"
    using assms by (simp add: list_all_iff cleanSeg_simps)
  with False have "splitOn CHR ''/'' (joinWith ''/'' segs) = segs"
    by (rule splitOn_joinWith)
  then show ?thesis using assms by (simp add: pathSegments_def filter_clean)
qed

lemma pathSegments_resolve:
  "isAbsolute p \<Longrightarrow> pathSegments (resolve wd p) = lexicalReduce p"
  by (simp only: resolve_abs pathSegments_joined [OF lexicalReduce_clean])

lemma stripCommon_same: "stripCommon xs xs = ([], [])"
  by (induction xs) simp_all

lemma stripCommon_prefix: "fst (stripCommon fs ts) = [] \<longleftrightarrow> prefix fs ts"
  by (induction fs ts rule: stripCommon.induct) simp_all

lemma stripCommon_snd: "prefix fs ts \<Longrightarrow> stripCommon fs ts = ([], drop (length fs) ts)"
  by (induction fs ts rule: stripCommon.induct) simp_all

text \<open>For absolute paths \<open>path.relative\<close> is a function of the reduced segment lists.\<close>

lemma relative_abs:
  assumes "isAbsolute from" "isAbsolute to"
  shows "relative wd from to =
           (case stripCommon (lexicalReduce from) (lexicalReduce to) of
              (f, t) \<Rightarrow> joinWith ''/'' (map (\<lambda>_. ''..'') f @ t))"
proof (cases "from = to \<or> resolve wd from = resolve wd to")
  case True
  then have "lexicalReduce from = lexicalReduce to"
    using pathSegments_resolve [OF assms(1), of wd] pathSegments_resolve [OF assms(2), of wd]
    by auto
  moreover from True have "relative wd from to = []"
    by (auto simp: relative_def Let_def)
  ultimately show ?thesis by (simp add: stripCommon_same)
next
  case False
  then show ?thesis
    by (simp add: relative_def Let_def pathSegments_resolve assms)
qed

lemma startsWith_dotdot_join:
  "startsWith (s @ CHR ''/'' # r) ''..'' = startsWith s ''..''"
proof (cases s)
  case Nil
  then show ?thesis by (simp add: startsWith_def)
next
  case (Cons a s')
  then show ?thesis by (cases s') (simp_all add: startsWith_def)
qed

lemma joinWith_clean_head:
  assumes "cleanSeg s"
  shows "joinWith ''/'' (s # ss) \<noteq> []"
    and "startsWith (joinWith ''/'' (s # ss)) ''..'' = startsWith s ''..''"
    and "\<not> isAbsolute (joinWith ''/'' (s # ss))"
proof -
  from assms obtain c cs where s: "s = c # cs" "c \<noteq> CHR ''/''"
    by (cases s) (auto simp: cleanSeg_def)
  show "joinWith ''/'' (s # ss) \<noteq> []" using s by (simp add: joinWith_Cons)
  show "startsWith (joinWith ''/'' (s # ss)) ''..'' = startsWith s ''..''"
    using startsWith_dotdot_join [of s] by (simp add: joinWith_Cons)
  show "\<not> isAbsolute (joinWith ''/'' (s # ss))" using s by (simp add: joinWith_Cons)
qed

lemma joinWith_dotdot_head:
  "joinWith ''/'' (''..'' # ss) \<noteq> []" "startsWith (joinWith ''/'' (''..'' # ss)) ''..''"
  by (simp_all add: joinWith_Cons startsWith_def)

text \<open>
  The containment check on absolute paths: true exactly when the path reduces to the root
  or below it and the first segment below the root does not begin with two dots.
\<close>

lemma isSubPath_abs:
  assumes "isAbsolute root" "isAbsolute p"
  shows "isSubPath wd root p \<longleftrightarrow>
           lexicallyWithin root p \<and>
           (case drop (length (lexicalReduce root)) (lexicalReduce p) of
              [] \<Rightarrow> True
            | s # _ \<Rightarrow> \<not> startsWith s ''..'')"
proof -
  obtain f t where st: "stripCommon (lexicalReduce root) (lexicalReduce p) = (f, t)"
    by (cases "stripCommon (lexicalReduce root) (lexicalReduce p)")
  have rel: "relative wd root p = joinWith ''/'' (map (\<lambda>_. ''..'') f @ t)"
    using relative_abs [OF assms, of wd] st by simp
  show ?thesis
  proof (cases f)
    case (Cons a f')
    then have "\<not> lexicallyWithin root p"
      using stripCommon_prefix [of "lexicalReduce root" "lexicalReduce p"] st
      by (simp add: lexicallyWithin_def)
    moreover have "\<not> isSubPath wd root p"
      using rel Cons joinWith_dotdot_head [of "map (\<lambda>_. ''..'') f' @ t"]
      by (simp add: isSubPath_def Let_def)
    ultimately show ?thesis by simp
  next
    case Nil
    then have pre: "prefix (lexicalReduce root) (lexicalReduce p)"
      using stripCommon_prefix [of "lexicalReduce root" "lexicalReduce p"] st by simp
    then have t: "t = drop (length (lexicalReduce root)) (lexicalReduce p)"
      using stripCommon_snd [OF pre] st by simp
    show ?thesis
    proof (cases t)
      case Nil2: Nil
      with rel Nil pre t show ?thesis
        by (simp add: isSubPath_def Let_def lexicallyWithin_def)
    next
      case (Cons s ss)
      have "s \<in> set (lexicalReduce p)" using t Cons by (metis in_set_dropD list.set_intros(1))
      then have "cleanSeg s" using lexicalReduce_clean [of p] by (simp add: list_all_iff)
      from joinWith_clean_head [OF this, of ss] rel Nil Cons pre t show ?thesis
        by (simp add: isSubPath_def Let_def lexicallyWithin_def)
    qed
  qed
qed

subsection \<open>Joining a request path to the root\<close>

lemma splitOn_Cons_sep: "splitOn sep (sep # s) = [] # splitOn sep s"
  by simp

lemma lexicalReduce_joined:
  assumes "list_all cleanSeg segs" "tr = [] \<or> tr = ''/''"
  shows "lexicalReduce (''/'' @ joinWith ''/'' segs @ tr) = segs"
proof (cases "segs = []")
  case True
  with assms(2) show ?thesis by (auto simp: lexicalReduce_def reduceStep_def)
next
  case False
  have nosep: "\<forall>s \<in> set segs. CHR ''/'' \<notin> set s"
    using assms(1) by (simp add: list_all_iff cleanSeg_simps)
  have sp: "splitOn CHR ''/'' (joinWith ''/'' segs) = segs"
    using False nosep by (rule splitOn_joinWith)
  from assms(2) show ?thesis
  proof
    assume "tr = []"
    then show ?thesis
      using sp assms(1) by (simp add: lexicalReduce_eq normalizeSegs_clean)
  next
    assume "tr = ''/''"
    then have "splitOn CHR ''/'' (''/'' @ joinWith ''/'' segs @ tr) = [] # segs @ [[]]"
      using sp splitOn_append [of "CHR ''/''" "joinWith ''/'' segs" "[]"] by simp
    then show ?thesis
      using assms(1)
      by (simp add: lexicalReduce_eq normalizeSegs_append normalizeSegs_clean)
  qed
qed

lemma normalize_path_abs:
  assumes "isAbsolute p"
  shows "isAbsolute (normalize_path p)" and "lexicalReduce (normalize_path p) = lexicalReduce p"
proof -
  from assms have ne: "p \<noteq> []" by auto
  let ?segs = "lexicalReduce p"
  let ?tr = "if last p = CHR ''/'' then ''/'' else []"
  have np: "normalize_path p =
      (if joinWith ''/'' ?segs = [] then ''/'' else ''/'' @ joinWith ''/'' ?segs @ ?tr)"
    using assms ne by (simp add: normalize_path_def Let_def lexicalReduce_eq)
  show "isAbsolute (normalize_path p)" unfolding np by simp
  show "lexicalReduce (normalize_path p) = lexicalReduce p"
  proof (cases "joinWith ''/'' ?segs = []")
    case True
    then have "?segs = []"
      using joinWith_eq_Nil [of ?segs "''/''"] lexicalReduce_clean [of p]
      by (simp add: list_all_iff cleanSeg_simps)
    moreover have "lexicalReduce ''/'' = []" by (simp add: lexicalReduce_def reduceStep_def)
    ultimately show ?thesis using True np by simp
  next
    case False
    then have "normalize_path p = ''/'' @ joinWith ''/'' ?segs @ ?tr" using np by simp
    then show ?thesis
      using lexicalReduce_joined [OF lexicalReduce_clean, of ?tr p] by simp
  qed
qed

lemma lexicalReduce_append:
  "lexicalReduce (a @ CHR ''/'' # b) = foldl reduceStep (lexicalReduce a) (splitOn CHR ''/'' b)"
  by (simp add: lexicalReduce_def splitOn_append)

lemma join_abs:
  assumes "isAbsolute root"
  shows "isAbsolute (join root d)"
    and "lexicalReduce (join root d) = foldl reduceStep (lexicalReduce root) (splitOn CHR ''/'' d)"
proof -
  from assms have ne: "root \<noteq> []" by auto
  show "isAbsolute (join root d)"
  proof (cases "d = []")
    case True
    with ne assms show ?thesis by (simp add: join_def normalize_path_abs)
  next
    case False
    have "isAbsolute (root @ ''/'' @ d)" using assms ne by (cases root) simp_all
    with False ne show ?thesis by (simp add: join_def normalize_path_abs)
  qed
  show "lexicalReduce (join root d) = foldl reduceStep (lexicalReduce root) (splitOn CHR ''/'' d)"
  proof (cases "d = []")
    case True
    with ne assms show ?thesis by (simp add: join_def normalize_path_abs reduceStep_def)
  next
    case False
    have abs: "isAbsolute (root @ ''/'' @ d)" using assms ne by (cases root) simp_all
    have "join root d = normalize_path (root @ ''/'' @ d)" using False ne by (simp add: join_def)
    then show ?thesis
      using normalize_path_abs(2) [OF abs] lexicalReduce_append [of root d] by simp
  qed
qed

text \<open>A direct child of the root whose name is an ordinary segment.\<close>

lemma join_child:
  assumes "isAbsolute root" "cleanSeg nm"
  shows "lexicalReduce (join root (''/'' @ nm)) = lexicalReduce root @ [nm]"
proof -
  have "splitOn CHR ''/'' (''/'' @ nm) = [[], nm]"
    using assms(2) by (simp add: splitOn_plain cleanSeg_simps)
  moreover have "nm \<noteq> []" "nm \<noteq> ''.''" "nm \<noteq> ''..''" using assms(2) by (simp_all add: cleanSeg_simps)
  ultimately show ?thesis
    using join_abs(2) [OF assms(1), of "''/'' @ nm"] by (simp add: reduceStep_def)
qed

lemma relative_same [simp]: "relative wd p p = []"
  by (simp add: relative_def)

lemma loadGitignoreRules_cases:
  obtains ig st' where "loadGitignoreRules e st rootDir = (ig, st')"
  by (cases "loadGitignoreRules e st rootDir")

section \<open>Containment check and traversal guard\<close>

text \<open>
  C1.  The claim reads: \<open>isSubPath root P\<close> is true exactly when \<open>P\<close> lexically reduces
  to the root or to a descendant of it.  By \<open>isSubPath_abs\<close> this holds except for
  descendants whose first segment below the root begins with two dots: the check
  \<^verbatim>\<open>relative.startsWith('..')\<close> also rejects names such as \<open>..notes.md\<close>.  At the
  path below the candidate lies within the root and the function answers false.
\<close>

theorem isSubPath_rejects_dotdot_name:
  "lexicallyWithin ''/srv/docs'' ''/srv/docs/..notes.md''
   \<and> \<not> isSubPath wd ''/srv/docs'' ''/srv/docs/..notes.md''"
  by (simp add: isSubPath_abs lexicallyWithin_def lexicalReduce_def reduceStep_def startsWith_def)

text \<open>
  C10.  For an entry directly under the root whose name begins with two dots (and is not
  \<open>..\<close> itself), the path joined from the request lies within the root, the relative
  path computed from the root is the name, \<open>isSubPath\<close> answers false and the handler
  responds 403 without touching its state.
\<close>

theorem dotdot_child_forbidden:
  assumes "isAbsolute (ROOT_DIR e)"
    and "CHR ''/'' \<notin> set nm" and "startsWith nm ''..''" and "nm \<noteq> ''..''"
    and "decodeURIComponent reqPath = Inr (''/'' @ nm)"
  shows "lexicallyWithin (ROOT_DIR e) (join (ROOT_DIR e) (''/'' @ nm))
         \<and> relative (cwd e) (ROOT_DIR e) (join (ROOT_DIR e) (''/'' @ nm)) = nm
         \<and> \<not> isSubPath (cwd e) (ROOT_DIR e) (join (ROOT_DIR e) (''/'' @ nm))
         \<and> handler e st reqPath =
             (Responded (Send 403 (Text ''Access denied: Path outside of root directory'')), st)"
proof -
  let ?root = "ROOT_DIR e"
  let ?full = "join ?root (''/'' @ nm)"
  from assms(3) have "nm \<noteq> []" "nm \<noteq> ''.''" by (auto simp: startsWith_def)
  with assms(2,4) have clean: "cleanSeg nm" by (simp add: cleanSeg_def)
  have red: "lexicalReduce ?full = lexicalReduce ?root @ [nm]"
    using assms(1) clean by (rule join_child)
  have abs: "isAbsolute ?full" using assms(1) by (rule join_abs)
  have within: "lexicallyWithin ?root ?full" using red by (simp add: lexicallyWithin_def)
  have rel: "relative (cwd e) ?root ?full = nm"
    using relative_abs [OF assms(1) abs, of "cwd e"] red
    by (simp add: stripCommon_snd)
  have sub: "\<not> isSubPath (cwd e) ?root ?full"
    using isSubPath_abs [OF assms(1) abs, of "cwd e"] red assms(3) by simp
  have "?full \<noteq> ?root"
  proof
    assume "?full = ?root"
    then have "relative (cwd e) ?root ?full = []" by simp
    with rel \<open>nm \<noteq> []\<close> show False by simp
  qed
  with sub assms(5) have "handler e st reqPath =
      (Responded (Send 403 (Text ''Access denied: Path outside of root directory'')), st)"
    by (simp add: handler_def Let_def)
  with within rel sub show ?thesis by simp
qed

text \<open>
  C2.  A request whose decoded path, joined with the root, reduces to a place outside the
  root is answered with 403, and the state of the handler (the rule cache and the record of
  file-system calls) is returned unchanged: no ignore check, existence check or read has
  happened.
\<close>

theorem traversal_forbidden:
  assumes "isAbsolute (ROOT_DIR e)"
    and "decodeURIComponent reqPath = Inr requestedPath"
    and "\<not> lexicallyWithin (ROOT_DIR e) (join (ROOT_DIR e) requestedPath)"
  shows "handler e st reqPath =
           (Responded (Send 403 (Text ''Access denied: Path outside of root directory'')), st)"
proof -
  let ?full = "join (ROOT_DIR e) requestedPath"
  have abs: "isAbsolute ?full" using assms(1) by (rule join_abs)
  have "\<not> isSubPath (cwd e) (ROOT_DIR e) ?full"
    using isSubPath_abs [OF assms(1) abs, of "cwd e"] assms(3) by simp
  moreover have "?full \<noteq> ROOT_DIR e"
    using assms(3) by (auto simp: lexicallyWithin_def)
  ultimately show ?thesis using assms(2) by (simp add: handler_def Let_def)
qed

lemma sample_root_abs: "isAbsolute (ROOT_DIR sampleEnv)"
  by (simp add: sampleEnv_def)

theorem traversal_forbidden_witness:
  "isAbsolute (ROOT_DIR sampleEnv)
   \<and> decodeURIComponent ''/../../etc/passwd'' = Inr ''/../../etc/passwd''
   \<and> \<not> lexicallyWithin (ROOT_DIR sampleEnv) (join (ROOT_DIR sampleEnv) ''/../../etc/passwd'')
   \<and> ROOT_DIR sampleEnv = ''/srv/docs''
   \<and> handler sampleEnv initialState ''/../../etc/passwd'' =
       (Responded (Send 403 (Text ''Access denied: Path outside of root directory'')), initialState)"
proof -
  have h1: "isAbsolute (ROOT_DIR sampleEnv)" by (simp add: sampleEnv_def)
  have h2: "decodeURIComponent ''/../../etc/passwd'' = Inr ''/../../etc/passwd''" by code_simp
  have h3: "\<not> lexicallyWithin (ROOT_DIR sampleEnv) (join (ROOT_DIR sampleEnv) ''/../../etc/passwd'')"
    by code_simp
  have h4: "ROOT_DIR sampleEnv = ''/srv/docs''" by (simp add: sampleEnv_def)
  from traversal_forbidden [OF h1 h2 h3, of initialState] h1 h2 h3 h4 show ?thesis by simp
qed

theorem dotdot_child_forbidden_witness:
  "isAbsolute (ROOT_DIR sampleEnv) \<and> CHR ''/'' \<notin> set ''..notes.md''
   \<and> startsWith ''..notes.md'' ''..'' \<and> ''..notes.md'' \<noteq> ''..''
   \<and> decodeURIComponent ''/..notes.md'' = Inr (''/'' @ ''..notes.md'')
   \<and> lexicallyWithin (ROOT_DIR sampleEnv) (join (ROOT_DIR sampleEnv) (''/'' @ ''..notes.md''))
   \<and> relative (cwd sampleEnv) (ROOT_DIR sampleEnv) (join (ROOT_DIR sampleEnv) (''/'' @ ''..notes.md''))
       = ''..notes.md''
   \<and> \<not> isSubPath (cwd sampleEnv) (ROOT_DIR sampleEnv) (join (ROOT_DIR sampleEnv) (''/'' @ ''..notes.md''))
   \<and> handler sampleEnv initialState ''/..notes.md'' =
       (Responded (Send 403 (Text ''Access denied: Path outside of root directory'')), initialState)"
proof -
  have h1: "isAbsolute (ROOT_DIR sampleEnv)" by (simp add: sampleEnv_def)
  have h2: "CHR ''/'' \<notin> set ''..notes.md''" by simp
  have h3: "startsWith ''..notes.md'' ''..''" by (simp add: startsWith_def)
  have h4: "''..notes.md'' \<noteq> ''..''" by simp
  have h5: "decodeURIComponent ''/..notes.md'' = Inr (''/'' @ ''..notes.md'')" by code_simp
  from dotdot_child_forbidden [OF h1 h2 h3 h4 h5, of initialState] h1 h2 h3 h4 h5
  show ?thesis by blast
qed

section \<open>Ignore engine: root and outside paths\<close>

lemma relative_outside:
  assumes "isAbsolute root" "isAbsolute p" "\<not> lexicallyWithin root p"
  shows "startsWith (relative wd root p) ''..''"
proof -
  obtain f t where st: "stripCommon (lexicalReduce root) (lexicalReduce p) = (f, t)"
    by (cases "stripCommon (lexicalReduce root) (lexicalReduce p)")
  with assms(3) have "f \<noteq> []"
    using stripCommon_prefix [of "lexicalReduce root" "lexicalReduce p"]
    by (simp add: lexicallyWithin_def)
  then obtain a f' where "f = a # f'" by (cases f) simp_all
  then show ?thesis
    using relative_abs [OF assms(1,2), of wd] st joinWith_dotdot_head(2) [of "map (\<lambda>_. ''..'') f' @ t"]
    by simp
qed

text \<open>
  C5.  Whatever the cached or loaded rule set: the root itself is never reported ignored;
  a path whose relative path from the root starts with \<open>..\<close> is never reported ignored;
  in particular a path that reduces to a place outside the root is never reported ignored.
\<close>

theorem shouldIgnoreFile_root_and_outside:
  "fst (shouldIgnoreFile e st R R) = Inr False
   \<and> (startsWith (relative (cwd e) R p) ''..'' \<longrightarrow> fst (shouldIgnoreFile e st p R) = Inr False)
   \<and> (isAbsolute R \<and> isAbsolute p \<and> \<not> lexicallyWithin R p
        \<longrightarrow> fst (shouldIgnoreFile e st p R) = Inr False)"
proof -
  obtain ig st' where l: "loadGitignoreRules e st R = (ig, st')"
    by (rule loadGitignoreRules_cases)
  have a: "fst (shouldIgnoreFile e st R R) = Inr False"
    using l by (simp add: shouldIgnoreFile_def Let_def)
  have b: "fst (shouldIgnoreFile e st p R) = Inr False" if "startsWith (relative (cwd e) R p) ''..''"
    using l that by (simp add: shouldIgnoreFile_def Let_def)
  from a b relative_outside [of R p "cwd e"] show ?thesis by blast
qed

theorem shouldIgnoreFile_root_and_outside_witness:
  "startsWith (relative (cwd sampleEnv) ''/srv/docs'' ''/etc/passwd'') ''..''
   \<and> isAbsolute ''/srv/docs'' \<and> isAbsolute ''/etc/passwd''
   \<and> \<not> lexicallyWithin ''/srv/docs'' ''/etc/passwd''
   \<and> fst (shouldIgnoreFile sampleEnv initialState ''/srv/docs'' ''/srv/docs'') = Inr False
   \<and> fst (shouldIgnoreFile sampleEnv initialState ''/etc/passwd'' ''/srv/docs'') = Inr False"
proof -
  have h1: "startsWith (relative (cwd sampleEnv) ''/srv/docs'' ''/etc/passwd'') ''..''" by code_simp
  have h2: "isAbsolute ''/srv/docs''" "isAbsolute ''/etc/passwd''" by simp_all
  have h3: "\<not> lexicallyWithin ''/srv/docs'' ''/etc/passwd''" by code_simp
  from shouldIgnoreFile_root_and_outside [of sampleEnv initialState "''/srv/docs''" "''/etc/passwd''"]
    h1 h2 h3
  show ?thesis by blast
qed

section \<open>Language detection without an extension\<close>

text \<open>
  C7.  For a path without extension \<open>detectLanguage\<close> computes the ordered rule table of
  the specification: shebang rules on the first line (node, then python, then shell),
  then the javascript keywords, then the python keywords, otherwise no language.  When no
  shebang rule applies, a javascript keyword decides for javascript whether or not python
  keywords are present.
\<close>

theorem detectLanguage_no_extension:
  assumes "extname filePath = []"
  shows "detectLanguage filePath content = classifyNoExtension content
         \<and> (firstMatch shebangRules (takeWhile (\<lambda>c. c \<noteq> CHR 0x0A) content) = None
              \<and> list_ex (includesStr content) javascriptKeywords
            \<longrightarrow> detectLanguage filePath content = Some ''javascript'')"
proof -
  have "map_of languages [] = None" by (simp add: languages_def)
  then have eq: "detectLanguage filePath content = classifyNoExtension content"
    using assms
    by (simp add: detectLanguage_def classifyNoExtension_def toLowerCase_def Let_def
        splitOn_first shebangRules_def javascriptKeywords_def pythonKeywords_def)
  then show ?thesis by (simp add: classifyNoExtension_def)
qed

theorem detectLanguage_no_extension_witness:
  "extname ''/srv/docs/run'' = []
   \<and> detectLanguage ''/srv/docs/run'' (''#!/usr/bin/env python'' @ [CHR 0x0A] @ ''print('' @ [CHR 0x22] @ ''hi'' @ [CHR 0x22] @ '')'')
       = Some ''python''
   \<and> detectLanguage ''/srv/docs/run'' ''function f(){}'' = Some ''javascript''
   \<and> detectLanguage ''/srv/docs/run'' ''hello world'' = None
   \<and> detectLanguage ''/srv/docs/run'' ''import os; const x = 1'' = Some ''javascript''"
proof -
  have h: "extname ''/srv/docs/run'' = []" by code_simp
  have c1: "classifyNoExtension (''#!/usr/bin/env python'' @ [CHR 0x0A] @ ''print('' @ [CHR 0x22] @ ''hi'' @ [CHR 0x22] @ '')'')
       = Some ''python''" by code_simp
  have c2: "classifyNoExtension ''function f(){}'' = Some ''javascript''" by code_simp
  have c3: "classifyNoExtension ''hello world'' = None" by code_simp
  have c4: "classifyNoExtension ''import os; const x = 1'' = Some ''javascript''" by code_simp
  from detectLanguage_no_extension [OF h] c1 c2 c3 c4 h show ?thesis by simp
qed

section \<open>Ignored paths and missing paths\<close>

lemma ignores_True_relative:
  assumes "ignores mk ig (map (\<lambda>c. if c = CHR 0x5C then CHR ''/'' else c) rel) = Inr b"
  shows "\<not> isAbsolute rel"
proof
  assume "isAbsolute rel"
  then obtain cs where "rel = CHR ''/'' # cs" by (cases rel) simp_all
  then have "ignores mk ig (map (\<lambda>c. if c = CHR 0x5C then CHR ''/'' else c) rel) = Inl RangeError"
    by (simp add: ignores_def isNotRelative_def)
  with assms show False by simp
qed

text \<open>A path reported ignored has passed the containment check.\<close>

lemma shouldIgnoreFile_True_isSubPath:
  assumes "fst (shouldIgnoreFile e st filePath rootDir) = Inr True"
  shows "isSubPath (cwd e) rootDir filePath"
proof -
  obtain ig st' where l: "loadGitignoreRules e st rootDir = (ig, st')"
    by (rule loadGitignoreRules_cases)
  let ?rel = "relative (cwd e) rootDir filePath"
  from assms l have 1: "\<not> startsWith ?rel ''..''"
    by (auto simp: shouldIgnoreFile_def Let_def split: if_splits)
  from assms l 1 have 2: "?rel \<noteq> []"
    by (auto simp: shouldIgnoreFile_def Let_def split: if_splits)
  from assms l 1 2 have "ignores (makeRegex e) ig (map (\<lambda>c. if c = CHR 0x5C then CHR ''/'' else c) ?rel) = Inr True"
    by (auto simp: shouldIgnoreFile_def Let_def split: if_splits)
  then have "\<not> isAbsolute ?rel" by (rule ignores_True_relative)
  with 1 2 show ?thesis by (simp add: isSubPath_def Let_def)
qed

lemma handler_ignored:
  assumes "decodeURIComponent reqPath = Inr requestedPath"
    and "fst (shouldIgnoreFile e st (join (ROOT_DIR e) requestedPath) (ROOT_DIR e)) = Inr True"
  shows "fst (handler e st reqPath) = Responded (Send 404 (Text ''File not found''))"
proof -
  let ?full = "join (ROOT_DIR e) requestedPath"
  obtain r st1 where s: "shouldIgnoreFile e st ?full (ROOT_DIR e) = (r, st1)"
    by (cases "shouldIgnoreFile e st ?full (ROOT_DIR e)")
  with assms(2) have r: "r = Inr True" by simp
  have "isSubPath (cwd e) (ROOT_DIR e) ?full"
    using assms(2) by (rule shouldIgnoreFile_True_isSubPath)
  with assms(1) s r show ?thesis by (simp add: handler_def Let_def)
qed

lemma handler_missing:
  assumes "decodeURIComponent reqPath = Inr requestedPath"
    and "isSubPath (cwd e) (ROOT_DIR e) (join (ROOT_DIR e) requestedPath)
         \<or> join (ROOT_DIR e) requestedPath = ROOT_DIR e"
    and "fst (shouldIgnoreFile e st (join (ROOT_DIR e) requestedPath) (ROOT_DIR e)) = Inr False"
    and "\<not> existsSync e (join (ROOT_DIR e) requestedPath)"
  shows "fst (handler e st reqPath) = Responded (Send 404 (Text ''File not found''))"
proof -
  let ?full = "join (ROOT_DIR e) requestedPath"
  obtain r st1 where s: "shouldIgnoreFile e st ?full (ROOT_DIR e) = (r, st1)"
    by (cases "shouldIgnoreFile e st ?full (ROOT_DIR e)")
  with assms(3) have r: "r = Inr False" by simp
  from assms(4) have "serve e st1 requestedPath ?full =
      (Inr (Send 404 (Text ''File not found'')), logCall (ExistsSync ?full) st1)"
    by (simp add: serve_def Let_def)
  with assms(1,2) s r show ?thesis by (auto simp: handler_def Let_def)
qed

text \<open>
  C3.  A request for a path that the ignore rules hide and a request for a path inside the
  root that is not hidden and does not exist receive the same response: status 404 with
  the body \<open>File not found\<close>.
\<close>

theorem ignored_indistinguishable_from_missing:
  assumes "decodeURIComponent hiddenReq = Inr hiddenPath"
    and "fst (shouldIgnoreFile e st (join (ROOT_DIR e) hiddenPath) (ROOT_DIR e)) = Inr True"
    and "decodeURIComponent missingReq = Inr missingPath"
    and "isSubPath (cwd e) (ROOT_DIR e) (join (ROOT_DIR e) missingPath)
         \<or> join (ROOT_DIR e) missingPath = ROOT_DIR e"
    and "fst (shouldIgnoreFile e st' (join (ROOT_DIR e) missingPath) (ROOT_DIR e)) = Inr False"
    and "\<not> existsSync e (join (ROOT_DIR e) missingPath)"
  shows "fst (handler e st hiddenReq) = Responded (Send 404 (Text ''File not found''))
         \<and> fst (handler e st' missingReq) = fst (handler e st hiddenReq)"
  using handler_ignored [OF assms(1,2)] handler_missing [OF assms(3,4,5,6)] by simp


theorem ignored_indistinguishable_from_missing_witness:
  "decodeURIComponent ''/a.txt'' = Inr ''/a.txt''
   \<and> fst (shouldIgnoreFile ignoringEnv initialState (join (ROOT_DIR ignoringEnv) ''/a.txt'') (ROOT_DIR ignoringEnv)) = Inr True
   \<and> existsSync ignoringEnv (join (ROOT_DIR ignoringEnv) ''/a.txt'')
   \<and> decodeURIComponent ''/missing.txt'' = Inr ''/missing.txt''
   \<and> isSubPath (cwd ignoringEnv) (ROOT_DIR ignoringEnv) (join (ROOT_DIR ignoringEnv) ''/missing.txt'')
   \<and> fst (shouldIgnoreFile ignoringEnv initialState (join (ROOT_DIR ignoringEnv) ''/missing.txt'') (ROOT_DIR ignoringEnv)) = Inr False
   \<and> \<not> existsSync ignoringEnv (join (ROOT_DIR ignoringEnv) ''/missing.txt'')
   \<and> fst (handler ignoringEnv initialState ''/a.txt'') = Responded (Send 404 (Text ''File not found''))
   \<and> fst (handler ignoringEnv initialState ''/missing.txt'') = fst (handler ignoringEnv initialState ''/a.txt'')"
proof -
  have h1: "decodeURIComponent ''/a.txt'' = Inr ''/a.txt''" by code_simp
  have h2: "fst (shouldIgnoreFile ignoringEnv initialState (join (ROOT_DIR ignoringEnv) ''/a.txt'') (ROOT_DIR ignoringEnv)) = Inr True"
    by code_simp
  have h3: "decodeURIComponent ''/missing.txt'' = Inr ''/missing.txt''" by code_simp
  have h4: "isSubPath (cwd ignoringEnv) (ROOT_DIR ignoringEnv) (join (ROOT_DIR ignoringEnv) ''/missing.txt'')"
    by code_simp
  have h5: "fst (shouldIgnoreFile ignoringEnv initialState (join (ROOT_DIR ignoringEnv) ''/missing.txt'') (ROOT_DIR ignoringEnv)) = Inr False"
    by code_simp
  have h6: "\<not> existsSync ignoringEnv (join (ROOT_DIR ignoringEnv) ''/missing.txt'')" by code_simp
  have h7: "existsSync ignoringEnv (join (ROOT_DIR ignoringEnv) ''/a.txt'')" by code_simp
  from ignored_indistinguishable_from_missing [OF h1 h2 h3 disjI1 [OF h4] h5 h6]
    h1 h2 h3 h4 h5 h6 h7
  show ?thesis by simp
qed

section \<open>The content-type gate\<close>

lemma textRenderable_iff:
  "textRenderable m \<longleftrightarrow>
     (\<exists>ty. m = Some ty \<and> (startsWith ty ''text/'' \<or> ty = ''application/javascript''
                              \<or> ty = ''application/json''))"
  by (cases m) (auto simp: textRenderable_def startsWith_def)

text \<open>
  C6.  For an existing entry inside the root that is not ignored and is not a directory:
  when the MIME type of the path begins with \<open>text/\<close> or is the JavaScript or JSON type,
  the file is read (the read is the last recorded file-system call) and the response is the
  rendered page built from its content, or 500 when the read fails; in every other case,
  including an unknown MIME type, the response is the hand-over to \<open>sendFile\<close> and the
  only calls recorded after the ignore check are the existence check and the stat: the
  content is neither read nor classified.
\<close>

theorem file_text_gate:
  assumes "isAbsolute (ROOT_DIR e)"
    and "decodeURIComponent reqPath = Inr requestedPath"
    and "fullPath = join (ROOT_DIR e) requestedPath"
    and "isSubPath (cwd e) (ROOT_DIR e) fullPath \<or> fullPath = ROOT_DIR e"
    and "shouldIgnoreFile e st fullPath (ROOT_DIR e) = (Inr False, st1)"
    and "existsSync e fullPath"
    and "statSync e fullPath = Some stats"
    and "\<not> st_isDirectory stats"
  shows "((\<exists>ty. getType e fullPath = Some ty
              \<and> (startsWith ty ''text/'' \<or> ty = ''application/javascript''
                   \<or> ty = ''application/json''))
          \<longrightarrow> snd (handler e st reqPath)
                = st1\<lparr>trace := trace st1 @ [ExistsSync fullPath, StatSync fullPath, ReadFileSync fullPath]\<rparr>
              \<and> (case readFileSync e fullPath of
                   None \<Rightarrow> fst (handler e st reqPath)
                            = Responded (Send 500 (Text ''Internal server error''))
                 | Some content \<Rightarrow>
                     fst (handler e st reqPath)
                       = Responded (Send 200
                           (FileHTML (basename fullPath) content requestedPath
                              (toLowerCase (extname fullPath) = ''.md'')
                              (detectLanguage fullPath content)
                              (toLowerCase (extname fullPath) = ''.html''
                                 \<or> toLowerCase (extname fullPath) = ''.htm'')))))
         \<and> (\<not> (\<exists>ty. getType e fullPath = Some ty
                \<and> (startsWith ty ''text/'' \<or> ty = ''application/javascript''
                     \<or> ty = ''application/json''))
            \<longrightarrow> handler e st reqPath
                  = (Responded (SendFile fullPath),
                     st1\<lparr>trace := trace st1 @ [ExistsSync fullPath, StatSync fullPath]\<rparr>))"
proof -
  have abs: "isAbsolute fullPath" unfolding assms(3) using assms(1) by (rule join_abs)
  have h: "handler e st reqPath =
      (case serve e st1 requestedPath fullPath of
         (Inl error, st2) \<Rightarrow> (Responded (Send 500 (Text ''Internal server error'')), st2)
       | (Inr r, st2) \<Rightarrow> (Responded r, st2))"
    using assms(2,4,5) unfolding assms(3) by (auto simp: handler_def Let_def)
  have s: "serve e st1 requestedPath fullPath =
      serveFile e (logCall (StatSync fullPath) (logCall (ExistsSync fullPath) st1)) requestedPath fullPath"
    using assms(6,7,8) by (simp add: serve_def Let_def)
  show ?thesis
  proof (cases "textRenderable (getType e fullPath)")
    case True
    then show ?thesis
      unfolding h s textRenderable_iff [symmetric]
      by (cases "readFileSync e fullPath") (simp_all add: serveFile_def Let_def logCall_def)
  next
    case False
    then show ?thesis
      unfolding h s textRenderable_iff [symmetric]
      using abs by (simp add: serveFile_def Let_def logCall_def)
  qed
qed

theorem file_text_gate_witness:
  "isAbsolute (ROOT_DIR sampleEnv)
   \<and> decodeURIComponent ''/a.txt'' = Inr ''/a.txt''
   \<and> isSubPath (cwd sampleEnv) (ROOT_DIR sampleEnv) (join (ROOT_DIR sampleEnv) ''/a.txt'')
   \<and> fst (shouldIgnoreFile sampleEnv initialState (join (ROOT_DIR sampleEnv) ''/a.txt'') (ROOT_DIR sampleEnv)) = Inr False
   \<and> existsSync sampleEnv (join (ROOT_DIR sampleEnv) ''/a.txt'')
   \<and> statSync sampleEnv (join (ROOT_DIR sampleEnv) ''/a.txt'') = Some (fileStats 2)
   \<and> \<not> st_isDirectory (fileStats 2)
   \<and> getType sampleEnv (join (ROOT_DIR sampleEnv) ''/a.txt'') = Some ''text/plain''
   \<and> readFileSync sampleEnv (join (ROOT_DIR sampleEnv) ''/a.txt'') = Some ''ay''
   \<and> fst (handler sampleEnv initialState ''/a.txt'')
       = Responded (Send 200 (FileHTML ''a.txt'' ''ay'' ''/a.txt'' False None False))
   \<and> decodeURIComponent ''/A/logo.png'' = Inr ''/A/logo.png''
   \<and> isSubPath (cwd sampleEnv) (ROOT_DIR sampleEnv) (join (ROOT_DIR sampleEnv) ''/A/logo.png'')
   \<and> fst (shouldIgnoreFile sampleEnv initialState (join (ROOT_DIR sampleEnv) ''/A/logo.png'') (ROOT_DIR sampleEnv)) = Inr False
   \<and> existsSync sampleEnv (join (ROOT_DIR sampleEnv) ''/A/logo.png'')
   \<and> statSync sampleEnv (join (ROOT_DIR sampleEnv) ''/A/logo.png'') = Some (fileStats 3)
   \<and> getType sampleEnv (join (ROOT_DIR sampleEnv) ''/A/logo.png'') = Some ''image/png''
   \<and> fst (handler sampleEnv initialState ''/A/logo.png'') = Responded (SendFile ''/srv/docs/A/logo.png'')"
proof -
  let ?a = "join (ROOT_DIR sampleEnv) ''/a.txt''"
  let ?l = "join (ROOT_DIR sampleEnv) ''/A/logo.png''"
  have h1: "isAbsolute (ROOT_DIR sampleEnv)" by code_simp
  have a2: "decodeURIComponent ''/a.txt'' = Inr ''/a.txt''" by code_simp
  have a4: "isSubPath (cwd sampleEnv) (ROOT_DIR sampleEnv) ?a" by code_simp
  obtain sa where a5: "shouldIgnoreFile sampleEnv initialState ?a (ROOT_DIR sampleEnv) = (Inr False, sa)"
  proof -
    have "fst (shouldIgnoreFile sampleEnv initialState ?a (ROOT_DIR sampleEnv)) = Inr False" by code_simp
    then show ?thesis using that by (cases "shouldIgnoreFile sampleEnv initialState ?a (ROOT_DIR sampleEnv)") simp
  qed
  have a6: "existsSync sampleEnv ?a" by code_simp
  have a7: "statSync sampleEnv ?a = Some (fileStats 2)" by code_simp
  have a8: "\<not> st_isDirectory (fileStats 2)" by code_simp
  have a9: "getType sampleEnv ?a = Some ''text/plain''" by code_simp
  have a10: "readFileSync sampleEnv ?a = Some ''ay''" by code_simp
  have a11: "basename ?a = ''a.txt''" "toLowerCase (extname ?a) = ''.txt''"
    "detectLanguage ?a ''ay'' = None" by code_simp+
  have l2: "decodeURIComponent ''/A/logo.png'' = Inr ''/A/logo.png''" by code_simp
  have l4: "isSubPath (cwd sampleEnv) (ROOT_DIR sampleEnv) ?l" by code_simp
  obtain sl where l5: "shouldIgnoreFile sampleEnv initialState ?l (ROOT_DIR sampleEnv) = (Inr False, sl)"
  proof -
    have "fst (shouldIgnoreFile sampleEnv initialState ?l (ROOT_DIR sampleEnv)) = Inr False" by code_simp
    then show ?thesis using that by (cases "shouldIgnoreFile sampleEnv initialState ?l (ROOT_DIR sampleEnv)") simp
  qed
  have l6: "existsSync sampleEnv ?l" by code_simp
  have l7: "statSync sampleEnv ?l = Some (fileStats 3)" by code_simp
  have l8: "\<not> st_isDirectory (fileStats 3)" by code_simp
  have l9: "getType sampleEnv ?l = Some ''image/png''" by code_simp
  have l10: "?l = ''/srv/docs/A/logo.png''" by code_simp
  have ta: "startsWith ''text/plain'' ''text/''" by (simp add: startsWith_def)
  have tl: "\<not> startsWith ''image/png'' ''text/''" by (simp add: startsWith_def)
  from file_text_gate [OF h1 a2 refl disjI1 [OF a4] a5 a6 a7 a8] a9 a10 a11 ta
  have ra: "fst (handler sampleEnv initialState ''/a.txt'')
       = Responded (Send 200 (FileHTML ''a.txt'' ''ay'' ''/a.txt'' False None False))"
    by simp
  from file_text_gate [OF h1 l2 refl disjI1 [OF l4] l5 l6 l7 l8] l9 l10 tl
  have rl: "fst (handler sampleEnv initialState ''/A/logo.png'') = Responded (SendFile ''/srv/docs/A/logo.png'')"
    by simp
  from h1 a2 a4 a5 a6 a7 a8 a9 a10 l2 l4 l5 l6 l7 l9 ra rl show ?thesis by simp
qed

section \<open>The rule cache\<close>

lemma readGitignore_fst:
  "fst (readGitignore e d (ig, tr)) = fst (readGitignore e d (ig, tr'))"
  by (simp add: readGitignore_def Let_def split: option.splits)

lemma loadLoop_fst:
  "fst (loadLoop e d checked (ig, tr)) = fst (loadLoop e d checked (ig, tr'))"
proof (induction e d checked "(ig, tr)" arbitrary: ig tr tr' rule: loadLoop.induct)
  case (1 e currentDir checkedDirs)
  obtain ig1 tr1 where r1: "readGitignore e currentDir (ig, tr) = (ig1, tr1)"
    by (cases "readGitignore e currentDir (ig, tr)")
  obtain ig2 tr2 where r2: "readGitignore e currentDir (ig, tr') = (ig2, tr2)"
    by (cases "readGitignore e currentDir (ig, tr')")
  have eq: "ig2 = ig1" using readGitignore_fst [of e currentDir ig tr tr'] r1 r2 by simp
  show ?case
  proof (cases "currentDir = [] \<or> currentDir \<in> set checkedDirs")
    case True
    then show ?thesis by (simp add: loadLoop.simps [of e currentDir])
  next
    case False
    show ?thesis
    proof (cases "dirname currentDir = currentDir")
      case True
      with False r1 r2 eq show ?thesis
        by (simp add: loadLoop.simps [of e currentDir] Let_def)
    next
      case F2: False
      have "fst (loadLoop e (dirname currentDir) (currentDir # checkedDirs) (ig1, tr1)) =
            fst (loadLoop e (dirname currentDir) (currentDir # checkedDirs) (ig1, tr2))"
        using "1.hyps" [OF False r1 [symmetric] refl refl F2, of tr2] .
      with False F2 r1 r2 eq show ?thesis
        by (simp add: loadLoop.simps [of e currentDir] Let_def)
    qed
  qed
qed

lemma loadGitignoreRules_cached:
  "gitignoreCache st R = Some ig \<Longrightarrow> loadGitignoreRules e st R = (ig, st)"
  by (simp add: loadGitignoreRules_def)

lemma loadGitignoreRules_caches:
  "loadGitignoreRules e st R = (ig, st') \<Longrightarrow> gitignoreCache st' R = Some ig"
  by (auto simp: loadGitignoreRules_def split: option.splits prod.splits)

lemma loadGitignoreRules_fst:
  assumes "gitignoreCache st R = gitignoreCache st' R"
  shows "fst (loadGitignoreRules e st R) = fst (loadGitignoreRules e st' R)"
proof (cases "gitignoreCache st R")
  case None
  obtain ig1 tr1 where l1: "loadLoop e R [] (add [] ''.git'', trace st) = (ig1, tr1)"
    by (cases "loadLoop e R [] (add [] ''.git'', trace st)")
  obtain ig2 tr2 where l2: "loadLoop e R [] (add [] ''.git'', trace st') = (ig2, tr2)"
    by (cases "loadLoop e R [] (add [] ''.git'', trace st')")
  have "ig1 = ig2"
    using loadLoop_fst [of e R "[]" "add [] ''.git''" "trace st" "trace st'"] l1 l2 by simp
  moreover from None assms have "gitignoreCache st' R = None" by simp
  ultimately show ?thesis using None l1 l2 by (simp add: loadGitignoreRules_def)
next
  case (Some ig)
  moreover from Some assms have "gitignoreCache st' R = Some ig" by simp
  ultimately show ?thesis by (simp add: loadGitignoreRules_def)
qed

lemma shouldIgnoreFile_snd:
  "snd (shouldIgnoreFile e st p R) = snd (loadGitignoreRules e st R)"
  by (simp add: shouldIgnoreFile_def Let_def split: prod.splits)

lemma shouldIgnoreFile_fst:
  assumes "fst (loadGitignoreRules e st R) = fst (loadGitignoreRules e st' R)"
  shows "fst (shouldIgnoreFile e st p R) = fst (shouldIgnoreFile e st' p R)"
proof -
  obtain ig s1 where l1: "loadGitignoreRules e st R = (ig, s1)"
    by (rule loadGitignoreRules_cases)
  obtain ig' s2 where l2: "loadGitignoreRules e st' R = (ig', s2)"
    by (rule loadGitignoreRules_cases)
  from assms l1 l2 have "ig' = ig" by simp
  with l1 l2 show ?thesis by (simp add: shouldIgnoreFile_def Let_def)
qed

text \<open>Once the rules of a root are cached, an ignore check leaves the state alone.\<close>

lemma shouldIgnoreFile_cached:
  "gitignoreCache st R \<noteq> None \<Longrightarrow> snd (shouldIgnoreFile e st p R) = st"
  by (auto simp: shouldIgnoreFile_snd loadGitignoreRules_cached)

lemma shouldIgnoreFile_caches:
  "gitignoreCache (snd (shouldIgnoreFile e st p R)) R \<noteq> None"
  using loadGitignoreRules_caches [of e st R]
  by (cases "loadGitignoreRules e st R") (simp add: shouldIgnoreFile_snd)

text \<open>The answer of a later check is the answer the first check would have given.\<close>

lemma shouldIgnoreFile_after:
  "fst (shouldIgnoreFile e (snd (shouldIgnoreFile e st q R)) p R) = fst (shouldIgnoreFile e st p R)"
proof -
  obtain ig st' where l: "loadGitignoreRules e st R = (ig, st')"
    by (rule loadGitignoreRules_cases)
  then have "gitignoreCache st' R = Some ig" by (rule loadGitignoreRules_caches)
  then have "loadGitignoreRules e st' R = (ig, st')" by (rule loadGitignoreRules_cached)
  with l have "fst (loadGitignoreRules e st' R) = fst (loadGitignoreRules e st R)" by simp
  then have "fst (shouldIgnoreFile e st' p R) = fst (shouldIgnoreFile e st p R)"
    by (rule shouldIgnoreFile_fst)
  then show ?thesis using l by (simp add: shouldIgnoreFile_snd)
qed

lemma logCall_cache [simp]: "gitignoreCache (logCall c st) = gitignoreCache st"
  by (simp add: logCall_def)

lemma shouldIgnoreFile_logCall:
  "fst (shouldIgnoreFile e (logCall c st) p R) = fst (shouldIgnoreFile e st p R)"
  by (rule shouldIgnoreFile_fst, rule loadGitignoreRules_fst) simp

lemma filterIgnored_Cons_Inr:
  assumes "filterIgnored e st (p # ps) = (Inr kept, st')"
  obtains b s1 k2 where "shouldIgnoreFile e st p (ROOT_DIR e) = (Inr b, s1)"
    and "filterIgnored e s1 ps = (Inr k2, st')" and "kept = (if b then k2 else p # k2)"
proof -
  obtain r s1 where s: "shouldIgnoreFile e st p (ROOT_DIR e) = (r, s1)"
    by (cases "shouldIgnoreFile e st p (ROOT_DIR e)")
  obtain r2 s2 where f: "filterIgnored e s1 ps = (r2, s2)" by (cases "filterIgnored e s1 ps")
  show ?thesis
  proof (cases r)
    case (Inl x)
    with assms s show ?thesis by simp
  next
    case (Inr b)
    show ?thesis
    proof (cases r2)
      case (Inl x)
      with assms s Inr f show ?thesis by simp
    next
      case Inr2: (Inr k2)
      with assms s Inr f have "st' = s2" "kept = (if b then k2 else p # k2)" by simp_all
      with s Inr f Inr2 that show ?thesis by simp
    qed
  qed
qed

lemma filterIgnored_cached:
  assumes "gitignoreCache st (ROOT_DIR e) \<noteq> None"
    and "filterIgnored e st ps = (Inr kept, st')"
  shows "st' = st \<and> kept = filter (\<lambda>p. fst (shouldIgnoreFile e st p (ROOT_DIR e)) = Inr False) ps"
  using assms(2)
proof (induction ps arbitrary: kept)
  case Nil
  then show ?case by simp
next
  case (Cons p ps)
  from Cons.prems obtain b s1 k2 where s: "shouldIgnoreFile e st p (ROOT_DIR e) = (Inr b, s1)"
    and f: "filterIgnored e s1 ps = (Inr k2, st')" and k: "kept = (if b then k2 else p # k2)"
    by (rule filterIgnored_Cons_Inr)
  have s1: "s1 = st" using shouldIgnoreFile_cached [OF assms(1), of e p] s by simp
  from Cons.IH [of k2] f s1
  have ih: "st' = st" "k2 = filter (\<lambda>p. fst (shouldIgnoreFile e st p (ROOT_DIR e)) = Inr False) ps"
    by simp_all
  show ?case
  proof (cases b)
    case True
    with s k ih show ?thesis by simp
  next
    case False
    with s k ih show ?thesis by simp
  qed
qed

section \<open>Sorting\<close>

lemma mset_insertBy: "mset (insertBy cmp x ys) = add_mset x (mset ys)"
  by (induction ys) simp_all

lemma mset_sortBy: "mset (sortBy cmp xs) = mset xs"
  by (induction xs) (simp_all add: sortBy_def mset_insertBy)

lemma set_insertBy: "set (insertBy cmp x ys) = insert x (set ys)"
  by (induction ys) auto

lemma sorted_insertBy:
  assumes total: "\<And>a b. cmp a b \<le> 0 \<or> cmp b a \<le> 0"
    and trans: "\<And>a b c. cmp a b \<le> 0 \<Longrightarrow> cmp b c \<le> 0 \<Longrightarrow> cmp a c \<le> 0"
    and "sorted_wrt (\<lambda>a b. cmp a b \<le> 0) ys"
  shows "sorted_wrt (\<lambda>a b. cmp a b \<le> 0) (insertBy cmp x ys)"
  using assms(3)
proof (induction ys)
  case Nil
  then show ?case by simp
next
  case (Cons y ys)
  show ?case
  proof (cases "cmp x y \<le> 0")
    case True
    have "\<forall>z \<in> set ys. cmp x z \<le> 0"
    proof
      fix z assume "z \<in> set ys"
      with Cons.prems have "cmp y z \<le> 0" by simp
      with True show "cmp x z \<le> 0" by (rule trans)
    qed
    with True Cons.prems show ?thesis by simp
  next
    case False
    with total [of x y] have "cmp y x \<le> 0" by simp
    with False Cons show ?thesis by (simp add: set_insertBy)
  qed
qed

lemma sorted_sortBy:
  assumes "\<And>a b. cmp a b \<le> 0 \<or> cmp b a \<le> 0"
    and "\<And>a b c. cmp a b \<le> 0 \<Longrightarrow> cmp b c \<le> 0 \<Longrightarrow> cmp a c \<le> 0"
  shows "sorted_wrt (\<lambda>a b. cmp a b \<le> 0) (sortBy cmp xs)"
proof (induction xs)
  case Nil
  then show ?case by (simp add: sortBy_def)
next
  case (Cons x xs)
  have "sortBy cmp (x # xs) = insertBy cmp x (sortBy cmp xs)" by (simp add: sortBy_def)
  with sorted_insertBy [of cmp "sortBy cmp xs" x, OF assms Cons] show ?case by simp
qed

text \<open>A comparison function that orders consistently: total and transitive.\<close>

lemma compareEntries_total:
  assumes "\<forall>a b. localeCompare e a b \<le> 0 \<or> localeCompare e b a \<le> 0"
  shows "compareEntries e a b \<le> 0 \<or> compareEntries e b a \<le> 0"
  using assms by (auto simp: compareEntries_def)

lemma compareEntries_trans:
  assumes "\<forall>a b c. localeCompare e a b \<le> 0 \<and> localeCompare e b c \<le> 0 \<longrightarrow> localeCompare e a c \<le> 0"
    and "compareEntries e a b \<le> 0" and "compareEntries e b c \<le> 0"
  shows "compareEntries e a c \<le> 0"
proof -
  from assms(2) have ab: "(isDirectory a \<and> \<not> isDirectory b)
      \<or> (isDirectory a = isDirectory b \<and> localeCompare e (name a) (name b) \<le> 0)"
    by (auto simp: compareEntries_def split: if_splits)
  from assms(3) have bc: "(isDirectory b \<and> \<not> isDirectory c)
      \<or> (isDirectory b = isDirectory c \<and> localeCompare e (name b) (name c) \<le> 0)"
    by (auto simp: compareEntries_def split: if_splits)
  from ab bc have "(isDirectory a \<and> \<not> isDirectory c)
      \<or> (isDirectory a = isDirectory c \<and> localeCompare e (name a) (name b) \<le> 0
            \<and> localeCompare e (name b) (name c) \<le> 0)"
    by blast
  then have "(isDirectory a \<and> \<not> isDirectory c)
      \<or> (isDirectory a = isDirectory c \<and> localeCompare e (name a) (name c) \<le> 0)"
    using assms(1) by blast
  then show ?thesis by (auto simp: compareEntries_def)
qed

lemma compareEntries_le:
  "compareEntries e a b \<le> 0 \<Longrightarrow>
     (isDirectory b \<longrightarrow> isDirectory a)
     \<and> (isDirectory a = isDirectory b \<longrightarrow> localeCompare e (name a) (name b) \<le> 0)"
  by (auto simp: compareEntries_def split: if_splits)

section \<open>Entries of a listing\<close>

lemma mapFileInfo_names:
  "mapFileInfo e st ps = (Inr infos, st') \<Longrightarrow> map name infos = map basename ps"
proof (induction ps arbitrary: st infos st')
  case Nil
  then show ?case by simp
next
  case (Cons p ps)
  obtain r s1 where g: "getFileInfo e st p = (r, s1)" by (cases "getFileInfo e st p")
  obtain r2 s2 where m: "mapFileInfo e s1 ps = (r2, s2)" by (cases "mapFileInfo e s1 ps")
  from Cons.prems g obtain info where r: "r = Inr info" by (cases r) simp_all
  from Cons.prems g r m obtain infos2 where r2: "r2 = Inr infos2" by (cases r2) simp_all
  from Cons.prems g r m r2 have i: "infos = info # infos2" by simp
  from g r have "name info = basename p"
    by (auto simp: getFileInfo_def Let_def split: option.splits)
  moreover from Cons.IH [of s1 infos2 s2] m r2 have "map name infos2 = map basename ps" by simp
  ultimately show ?case using i by simp
qed

lemma basename_append_sep:
  assumes "c \<noteq> []" "CHR ''/'' \<notin> set c"
  shows "basename (pre @ CHR ''/'' # c) = c"
proof -
  from assms(1) obtain x xs where rc: "rev c = x # xs" by (cases "rev c") simp_all
  then have "x \<in> set c" by (metis list.set_intros(1) set_rev)
  with assms(2) have x: "x \<noteq> CHR ''/''" by auto
  have all: "\<forall>y \<in> set (rev c). y \<noteq> CHR ''/''" using assms(2) by auto
  have "dropWhile (\<lambda>x. x = CHR ''/'') (rev (pre @ CHR ''/'' # c)) = rev c @ CHR ''/'' # rev pre"
    using rc x by simp
  moreover have "takeWhile (\<lambda>x. x \<noteq> CHR ''/'') (rev c @ CHR ''/'' # rev pre)
      = rev c @ takeWhile (\<lambda>x. x \<noteq> CHR ''/'') (CHR ''/'' # rev pre)"
    by (rule takeWhile_append2) (use all in blast)
  then have "takeWhile (\<lambda>x. x \<noteq> CHR ''/'') (rev c @ CHR ''/'' # rev pre) = rev c" by simp
  ultimately show ?thesis by (simp add: basename_def)
qed

lemma joinWith_snoc:
  "joinWith sep (xs @ [c]) = (if xs = [] then c else joinWith sep xs @ sep @ c)"
  by (induction sep xs rule: joinWith.induct) simp_all

lemma basename_join_child:
  assumes "isAbsolute dir" "cleanSeg c"
  shows "basename (join dir c) = c"
proof -
  from assms(1) have dne: "dir \<noteq> []" by auto
  from assms(2) have c: "c \<noteq> []" "CHR ''/'' \<notin> set c" "c \<noteq> ''.''" "c \<noteq> ''..''"
    by (simp_all add: cleanSeg_simps)
  let ?p = "dir @ ''/'' @ c"
  have abs: "isAbsolute ?p" using assms(1) dne by (cases dir) simp_all
  have red: "lexicalReduce ?p = lexicalReduce dir @ [c]"
    using lexicalReduce_append [of dir c] c by (simp add: splitOn_plain reduceStep_def)
  have "last ?p = last c" using c(1) by simp
  moreover have "last c \<in> set c" using c(1) by simp
  ultimately have lastp: "last ?p \<noteq> CHR ''/''" using c(2) by metis
  have jne: "joinWith ''/'' (lexicalReduce dir @ [c]) \<noteq> []"
    using c(1) by (simp add: joinWith_snoc)
  have "join dir c = normalize_path ?p" using dne c(1) by (simp add: join_def)
  also have "\<dots> = ''/'' @ joinWith ''/'' (lexicalReduce dir @ [c])"
    using abs lastp jne red
    by (simp add: normalize_path_def Let_def lexicalReduce_eq [symmetric])
  also have "\<dots> = (if lexicalReduce dir = [] then [] else ''/'' @ joinWith ''/'' (lexicalReduce dir))
        @ CHR ''/'' # c"
    by (simp add: joinWith_snoc)
  finally show ?thesis using basename_append_sep [OF c(1,2)] by simp
qed

section \<open>How a listing comes about\<close>

lemma serveFile_not_listing:
  "fst (serveFile e st rp full) \<noteq> Inr (Send 200 (DirectoryHTML d files cur root))"
  by (simp add: serveFile_def Let_def split: option.splits)

lemma serveDirectory_listing:
  assumes "fst (serveDirectory e st rp full) = Inr (Send 200 (DirectoryHTML d files cur root))"
  obtains entries kept st2 infos st3 where
    "d = full" "readdirSync e full = Some entries"
    "filterIgnored e (logCall (ReaddirSync full) st)
       (map (\<lambda>file. join full file) (filter (\<lambda>file. \<not> startsWith file ''.'') entries)) = (Inr kept, st2)"
    "mapFileInfo e st2 kept = (Inr infos, st3)"
    "files = sortBy (compareEntries e) infos"
proof (cases "readdirSync e full")
  case None
  with assms show ?thesis by (simp add: serveDirectory_def Let_def)
next
  case (Some entries)
  let ?paths = "map (\<lambda>file. join full file) (filter (\<lambda>file. \<not> startsWith file ''.'') entries)"
  obtain r st2 where f: "filterIgnored e (logCall (ReaddirSync full) st) ?paths = (r, st2)"
    by (cases "filterIgnored e (logCall (ReaddirSync full) st) ?paths")
  show ?thesis
  proof (cases r)
    case (Inl x)
    with assms Some f show ?thesis by (simp add: serveDirectory_def Let_def)
  next
    case (Inr kept)
    obtain r3 st3 where m: "mapFileInfo e st2 kept = (r3, st3)" by (cases "mapFileInfo e st2 kept")
    show ?thesis
    proof (cases r3)
      case Inl3: (Inl x)
      with assms Some f Inr m show ?thesis by (simp add: serveDirectory_def Let_def)
    next
      case Inr3: (Inr infos)
      with assms Some f Inr m have "d = full" "files = sortBy (compareEntries e) infos"
        by (simp_all add: serveDirectory_def Let_def)
      with Some f Inr m Inr3 that show ?thesis by simp
    qed
  qed
qed

lemma serve_listing:
  assumes "fst (serve e st rp full) = Inr (Send 200 (DirectoryHTML d files cur root))"
  shows "fst (serveDirectory e (logCall (StatSync full) (logCall (ExistsSync full) st)) rp full)
           = Inr (Send 200 (DirectoryHTML d files cur root))"
proof (cases "existsSync e full")
  case False
  with assms show ?thesis by (simp add: serve_def Let_def)
next
  case True
  show ?thesis
  proof (cases "statSync e full")
    case None
    with assms True show ?thesis by (simp add: serve_def Let_def)
  next
    case (Some stats)
    show ?thesis
    proof (cases "st_isDirectory stats")
      case True2: True
      with assms True Some show ?thesis by (simp add: serve_def Let_def)
    next
      case False
      with assms True Some serveFile_not_listing show ?thesis by (simp add: serve_def Let_def)
    qed
  qed
qed

lemma handler_listing:
  assumes "fst (handler e st reqPath) = Responded (Send 200 (DirectoryHTML d files cur root))"
  obtains requestedPath st1 where
    "decodeURIComponent reqPath = Inr requestedPath"
    "shouldIgnoreFile e st (join (ROOT_DIR e) requestedPath) (ROOT_DIR e) = (Inr False, st1)"
    "fst (serve e st1 requestedPath (join (ROOT_DIR e) requestedPath))
       = Inr (Send 200 (DirectoryHTML d files cur root))"
proof (cases "decodeURIComponent reqPath")
  case (Inl x)
  with assms show ?thesis by (simp add: handler_def)
next
  case (Inr requestedPath)
  let ?full = "join (ROOT_DIR e) requestedPath"
  show ?thesis
  proof (cases "\<not> isSubPath (cwd e) (ROOT_DIR e) ?full \<and> ?full \<noteq> ROOT_DIR e")
    case True
    with assms Inr show ?thesis by (simp add: handler_def Let_def)
  next
    case False
    obtain r st1 where s: "shouldIgnoreFile e st ?full (ROOT_DIR e) = (r, st1)"
      by (cases "shouldIgnoreFile e st ?full (ROOT_DIR e)")
    have h: "handler e st reqPath =
        (case (r, st1) of
           (Inl x, st1) \<Rightarrow> (Uncaught x, st1)
         | (Inr True, st1) \<Rightarrow> (Responded (Send 404 (Text ''File not found'')), st1)
         | (Inr False, st1) \<Rightarrow>
             (case serve e st1 requestedPath ?full of
                (Inl error, st2) \<Rightarrow> (Responded (Send 500 (Text ''Internal server error'')), st2)
              | (Inr r, st2) \<Rightarrow> (Responded r, st2)))"
      using Inr False s by (auto simp: handler_def Let_def)
    show ?thesis
    proof (cases r)
      case Inl2: (Inl x)
      with assms h show ?thesis by simp
    next
      case Inr2: (Inr b)
      show ?thesis
      proof (cases b)
        case True
        with assms h Inr2 show ?thesis by simp
      next
        case F: False
        obtain r2 st2 where sv: "serve e st1 requestedPath ?full = (r2, st2)"
          by (cases "serve e st1 requestedPath ?full")
        from assms h Inr2 F sv have "r2 = Inr (Send 200 (DirectoryHTML d files cur root))"
          by (cases r2) simp_all
        with Inr s Inr2 F sv that show ?thesis by simp
      qed
    qed
  qed
qed

section \<open>Directory listings\<close>

lemma map_basename_join:
  assumes "isAbsolute d" "list_all cleanSeg cs"
  shows "map basename (map (\<lambda>file. join d file) cs) = cs"
  using assms(2) by (induction cs) (simp_all add: basename_join_child [OF assms(1)])

text \<open>
  C8.  Whenever the handler answers with a directory listing: the names listed are exactly
  the children returned by \<open>readdirSync\<close> that do not start with a dot and that the
  ignore engine does not report ignored, each as often as it was returned; no listed
  entry starts with a dot or is reported ignored; and in the listed order no file precedes
  a directory, and within the directories and within the files names ascend in the order
  of \<open>localeCompare\<close>.  The collation is assumed to compare consistently (totally and
  transitively) and \<open>readdirSync\<close> to return plain entry names.  The witness is the
  directory holding \<open>b.txt\<close>, the directory \<open>A\<close> and \<open>a.txt\<close>, listed as \<open>A\<close>,
  \<open>a.txt\<close>, \<open>b.txt\<close>.
\<close>

theorem directory_listing_filtered_sorted:
  assumes "isAbsolute (ROOT_DIR e)"
    and "\<forall>a b. localeCompare e a b \<le> 0 \<or> localeCompare e b a \<le> 0"
    and "\<forall>a b c. localeCompare e a b \<le> 0 \<and> localeCompare e b c \<le> 0 \<longrightarrow> localeCompare e a c \<le> 0"
    and "\<forall>entries. readdirSync e d = Some entries \<longrightarrow> list_all cleanSeg entries"
    and "fst (handler e st reqPath) = Responded (Send 200 (DirectoryHTML d files cur root))"
  shows "\<exists>entries. readdirSync e d = Some entries
           \<and> mset (map name files)
               = mset (filter (\<lambda>c. \<not> startsWith c ''.''
                                  \<and> fst (shouldIgnoreFile e st (join d c) (ROOT_DIR e)) = Inr False)
                        entries)
           \<and> (\<forall>f \<in> set files. \<not> startsWith (name f) ''.''
                  \<and> fst (shouldIgnoreFile e st (join d (name f)) (ROOT_DIR e)) \<noteq> Inr True)
           \<and> sorted_wrt (\<lambda>a b. (isDirectory b \<longrightarrow> isDirectory a)
                              \<and> (isDirectory a = isDirectory b
                                   \<longrightarrow> localeCompare e (name a) (name b) \<le> 0)) files"
proof -
  let ?R = "ROOT_DIR e"
  from assms(5) obtain requestedPath st1 where
    dec: "decodeURIComponent reqPath = Inr requestedPath"
    and ign: "shouldIgnoreFile e st (join ?R requestedPath) ?R = (Inr False, st1)"
    and srv: "fst (serve e st1 requestedPath (join ?R requestedPath))
                = Inr (Send 200 (DirectoryHTML d files cur root))"
    by (rule handler_listing)
  let ?full = "join ?R requestedPath"
  let ?s2 = "logCall (StatSync ?full) (logCall (ExistsSync ?full) st1)"
  let ?sF = "logCall (ReaddirSync ?full) ?s2"
  from serve_listing [OF srv] obtain entries kept st2 infos st3 where
    d: "d = ?full" and rd: "readdirSync e ?full = Some entries"
    and fl: "filterIgnored e ?sF
               (map (\<lambda>file. join ?full file) (filter (\<lambda>file. \<not> startsWith file ''.'') entries))
             = (Inr kept, st2)"
    and mp: "mapFileInfo e st2 kept = (Inr infos, st3)"
    and fs: "files = sortBy (compareEntries e) infos"
    by (rule serveDirectory_listing)
  have abs: "isAbsolute d" unfolding d using assms(1) by (rule join_abs)
  have clean: "list_all cleanSeg entries" using assms(4) rd d by simp
  let ?visible = "filter (\<lambda>file. \<not> startsWith file ''.'') entries"
  have st1: "st1 = snd (shouldIgnoreFile e st ?full ?R)" using ign by simp
  have cached: "gitignoreCache ?sF ?R \<noteq> None"
    unfolding st1 using shouldIgnoreFile_caches [of e st ?full ?R] by simp
  have same: "fst (shouldIgnoreFile e ?sF p ?R) = fst (shouldIgnoreFile e st p ?R)" for p
    unfolding st1 by (simp only: shouldIgnoreFile_logCall shouldIgnoreFile_after)
  from filterIgnored_cached [OF cached fl]
  have kept: "kept = filter (\<lambda>p. fst (shouldIgnoreFile e st p ?R) = Inr False)
                       (map (\<lambda>file. join d file) ?visible)"
    unfolding d by (simp only: same)
  then have kept': "kept = map (\<lambda>file. join d file)
      (filter (\<lambda>c. fst (shouldIgnoreFile e st (join d c) ?R) = Inr False) ?visible)"
    by (simp add: filter_map comp_def)
  let ?names = "filter (\<lambda>c. \<not> startsWith c ''.''
                            \<and> fst (shouldIgnoreFile e st (join d c) ?R) = Inr False) entries"
  have names_eq: "filter (\<lambda>c. fst (shouldIgnoreFile e st (join d c) ?R) = Inr False) ?visible = ?names"
    by (simp add: conj_commute)
  have "list_all cleanSeg ?names" using clean by (simp add: list_all_iff)
  then have "map basename (map (\<lambda>file. join d file) ?names) = ?names"
    using abs by (rule map_basename_join [rotated])
  with mapFileInfo_names [OF mp] kept' names_eq have names: "map name infos = ?names" by simp
  have ms: "mset (map name files) = mset ?names"
    unfolding fs using names mset_sortBy [of "compareEntries e" infos]
    by (metis mset_map)
  then have sets: "set (map name files) = set ?names" by (rule mset_eq_setD)
  have excl: "\<forall>f \<in> set files. \<not> startsWith (name f) ''.''
                  \<and> fst (shouldIgnoreFile e st (join d (name f)) ?R) \<noteq> Inr True"
  proof
    fix f assume "f \<in> set files"
    then have "name f \<in> set (map name files)" by simp
    with sets have "name f \<in> set ?names" by simp
    then have "\<not> startsWith (name f) ''.''"
      and "fst (shouldIgnoreFile e st (join d (name f)) ?R) = Inr False" by simp_all
    then show "\<not> startsWith (name f) ''.''
                  \<and> fst (shouldIgnoreFile e st (join d (name f)) ?R) \<noteq> Inr True" by simp
  qed
  have "sorted_wrt (\<lambda>a b. compareEntries e a b \<le> 0) files"
    unfolding fs
    using compareEntries_total [OF assms(2)] compareEntries_trans [OF assms(3)]
    by (rule sorted_sortBy)
  then have srt: "sorted_wrt (\<lambda>a b. (isDirectory b \<longrightarrow> isDirectory a)
                              \<and> (isDirectory a = isDirectory b
                                   \<longrightarrow> localeCompare e (name a) (name b) \<le> 0)) files"
    by (rule sorted_wrt_mono_rel [rotated]) (rule compareEntries_le)
  from rd d ms excl srt show ?thesis by blast
qed

lemma codeCompare_total: "codeCompare a b \<le> 0 \<or> codeCompare b a \<le> 0"
  by (induction a b rule: codeCompare.induct) simp_all

lemma codeCompare_trans:
  "codeCompare a b \<le> 0 \<Longrightarrow> codeCompare b c \<le> 0 \<Longrightarrow> codeCompare a c \<le> 0"
proof (induction a arbitrary: b c)
  case Nil
  then show ?case by (cases c) simp_all
next
  case (Cons x xs)
  from Cons.prems(1) obtain y ys where b: "b = y # ys" by (cases b) simp_all
  from Cons.prems(2) b obtain z zs where c: "c = z # zs" by (cases c) simp_all
  from Cons.prems(1) b have xy: "(of_char x :: nat) < of_char y
      \<or> ((of_char x :: nat) = of_char y \<and> codeCompare xs ys \<le> 0)"
    by (simp split: if_splits)
  from Cons.prems(2) b c have yz: "(of_char y :: nat) < of_char z
      \<or> ((of_char y :: nat) = of_char z \<and> codeCompare ys zs \<le> 0)"
    by (simp split: if_splits)
  from xy yz have "(of_char x :: nat) < of_char z
      \<or> ((of_char x :: nat) = of_char z \<and> codeCompare xs ys \<le> 0 \<and> codeCompare ys zs \<le> 0)"
    by auto
  then have "(of_char x :: nat) < of_char z
      \<or> ((of_char x :: nat) = of_char z \<and> codeCompare xs zs \<le> 0)"
    using Cons.IH by blast
  then show ?case using c by auto
qed

theorem directory_listing_filtered_sorted_witness:
  "isAbsolute (ROOT_DIR sampleEnv)
   \<and> localeCompare sampleEnv = codeCompare
   \<and> readdirSync sampleEnv ''/srv/docs/'' = Some [''b.txt'', ''A'', ''a.txt'']
   \<and> list_all cleanSeg [''b.txt'', ''A'', ''a.txt'']
   \<and> fst (handler sampleEnv initialState ''/'')
       = Responded (Send 200 (DirectoryHTML ''/srv/docs/''
           [\<lparr>name = ''A'', isDirectory = True, fsize = None, modified = 0,
              extension = [], ftype = ''directory''\<rparr>,
            \<lparr>name = ''a.txt'', isDirectory = False, fsize = Some 2, modified = 0,
              extension = ''.txt'', ftype = ''text''\<rparr>,
            \<lparr>name = ''b.txt'', isDirectory = False, fsize = Some 3, modified = 0,
              extension = ''.txt'', ftype = ''text''\<rparr>]
           [] ''/srv/docs''))
   \<and> mset [''A'', ''a.txt'', ''b.txt'']
       = mset (filter (\<lambda>c. \<not> startsWith c ''.''
                  \<and> fst (shouldIgnoreFile sampleEnv initialState (join ''/srv/docs/'' c)
                            (ROOT_DIR sampleEnv)) = Inr False)
                [''b.txt'', ''A'', ''a.txt''])"
proof -
  let ?files = "[\<lparr>name = ''A'', isDirectory = True, fsize = None, modified = 0,
              extension = [], ftype = ''directory''\<rparr>,
            \<lparr>name = ''a.txt'', isDirectory = False, fsize = Some 2, modified = 0,
              extension = ''.txt'', ftype = ''text''\<rparr>,
            \<lparr>name = ''b.txt'', isDirectory = False, fsize = Some 3, modified = 0,
              extension = ''.txt'', ftype = ''text''\<rparr>]"
  have h1: "isAbsolute (ROOT_DIR sampleEnv)" by code_simp
  have lc: "localeCompare sampleEnv = codeCompare" by (simp add: sampleEnv_def)
  have h2: "\<forall>a b. localeCompare sampleEnv a b \<le> 0 \<or> localeCompare sampleEnv b a \<le> 0"
    unfolding lc using codeCompare_total by blast
  have h3: "\<forall>a b c. localeCompare sampleEnv a b \<le> 0 \<and> localeCompare sampleEnv b c \<le> 0
          \<longrightarrow> localeCompare sampleEnv a c \<le> 0"
    unfolding lc using codeCompare_trans by blast
  have rd: "readdirSync sampleEnv ''/srv/docs/'' = Some [''b.txt'', ''A'', ''a.txt'']"
    by code_simp
  have cl: "list_all cleanSeg [''b.txt'', ''A'', ''a.txt'']" by (simp add: cleanSeg_def)
  have h4: "\<forall>entries. readdirSync sampleEnv ''/srv/docs/'' = Some entries \<longrightarrow> list_all cleanSeg entries"
    using rd cl by simp
  have h5: "fst (handler sampleEnv initialState ''/'')
       = Responded (Send 200 (DirectoryHTML ''/srv/docs/'' ?files [] ''/srv/docs''))"
    by code_simp
  from directory_listing_filtered_sorted [OF h1 h2 h3 h4 h5] rd
  have "mset (map name ?files)
       = mset (filter (\<lambda>c. \<not> startsWith c ''.''
                  \<and> fst (shouldIgnoreFile sampleEnv initialState (join ''/srv/docs/'' c)
                            (ROOT_DIR sampleEnv)) = Inr False)
                [''b.txt'', ''A'', ''a.txt''])"
    by auto
  then have m: "mset [''A'', ''a.txt'', ''b.txt'']
       = mset (filter (\<lambda>c. \<not> startsWith c ''.''
                  \<and> fst (shouldIgnoreFile sampleEnv initialState (join ''/srv/docs/'' c)
                            (ROOT_DIR sampleEnv)) = Inr False)
                [''b.txt'', ''A'', ''a.txt''])"
    by simp
  from h1 lc rd cl h5 m show ?thesis by blast
qed

section \<open>The implicit rule\<close>

lemma add_git: "add [] ''.git'' = [gitRule]"
  by (simp add: add_def checkPattern_def createRule_def startsWith_def isWhitespace_def gitRule_def)

lemma add_append: "\<exists>more. add ig content = ig @ more"
  by (simp add: add_def)

lemma readGitignore_extends: "\<exists>more. fst (readGitignore e d (ig, tr)) = ig @ more"
  using add_append [of ig] by (auto simp: readGitignore_def Let_def split: option.splits)

lemma loadLoop_extends: "\<exists>more. fst (loadLoop e d checked (ig, tr)) = ig @ more"
proof (induction e d checked "(ig, tr)" arbitrary: ig tr rule: loadLoop.induct)
  case (1 e currentDir checkedDirs)
  obtain ig1 tr1 where r1: "readGitignore e currentDir (ig, tr) = (ig1, tr1)"
    by (cases "readGitignore e currentDir (ig, tr)")
  obtain m1 where m1: "ig1 = ig @ m1" using readGitignore_extends [of e currentDir ig tr] r1 by auto
  show ?case
  proof (cases "currentDir = [] \<or> currentDir \<in> set checkedDirs")
    case True
    then show ?thesis by (simp add: loadLoop.simps [of e currentDir])
  next
    case False
    show ?thesis
    proof (cases "dirname currentDir = currentDir")
      case True
      with False r1 m1 show ?thesis by (simp add: loadLoop.simps [of e currentDir] Let_def)
    next
      case F2: False
      from "1.hyps" [OF False r1 [symmetric] refl refl F2]
      obtain m2 where "fst (loadLoop e (dirname currentDir) (currentDir # checkedDirs) (ig1, tr1)) = ig1 @ m2"
        by blast
      with False F2 r1 m1 show ?thesis by (simp add: loadLoop.simps [of e currentDir] Let_def)
    qed
  qed
qed

text \<open>A fresh load starts with the implicit rule, whatever the ignore files contain.\<close>

lemma loadGitignoreRules_fresh:
  assumes "gitignoreCache st R = None"
  shows "\<exists>rest. fst (loadGitignoreRules e st R) = gitRule # rest"
proof -
  obtain ig tr where l: "loadLoop e R [] (add [] ''.git'', trace st) = (ig, tr)"
    by (cases "loadLoop e R [] (add [] ''.git'', trace st)")
  from loadLoop_extends [of e R "[]" "add [] ''.git''" "trace st"] l
  obtain more where "ig = [gitRule] @ more" by (auto simp: add_git)
  with assms l show ?thesis by (simp add: loadGitignoreRules_def)
qed

lemma loadGitignoreRules_gitRule:
  assumes "cacheBuilt st"
  shows "\<exists>rest. fst (loadGitignoreRules e st R) = gitRule # rest"
proof (cases "gitignoreCache st R")
  case None
  then show ?thesis by (rule loadGitignoreRules_fresh)
next
  case (Some ig)
  with assms obtain rest where "ig = gitRule # rest" unfolding cacheBuilt_def by blast
  with Some show ?thesis by (simp add: loadGitignoreRules_def)
qed

lemma cacheBuilt_initialState: "cacheBuilt initialState"
  by (simp add: cacheBuilt_def initialState_def)

lemma cacheBuilt_logCall [simp]: "cacheBuilt (logCall c st) = cacheBuilt st"
  by (simp add: cacheBuilt_def)

lemma cacheBuilt_loadGitignoreRules:
  assumes "cacheBuilt st"
  shows "cacheBuilt (snd (loadGitignoreRules e st R))"
proof (cases "gitignoreCache st R")
  case (Some ig)
  with assms show ?thesis by (simp add: loadGitignoreRules_def)
next
  case None
  obtain ig tr where l: "loadLoop e R [] (add [] ''.git'', trace st) = (ig, tr)"
    by (cases "loadLoop e R [] (add [] ''.git'', trace st)")
  from loadGitignoreRules_fresh [OF None, of e] None l obtain rest where ig: "ig = gitRule # rest"
    by (auto simp: loadGitignoreRules_def)
  have "snd (loadGitignoreRules e st R)
      = st\<lparr>gitignoreCache := (gitignoreCache st)(R \<mapsto> ig), trace := tr\<rparr>"
    using None l by (simp add: loadGitignoreRules_def)
  then show ?thesis using assms ig by (auto simp: cacheBuilt_def)
qed

lemma cacheBuilt_shouldIgnoreFile:
  "cacheBuilt st \<Longrightarrow> cacheBuilt (snd (shouldIgnoreFile e st p R))"
  by (simp add: shouldIgnoreFile_snd cacheBuilt_loadGitignoreRules)

section \<open>Matching the implicit rule\<close>

lemma testRule_ignored:
  assumes "negative r \<longrightarrow> \<not> mk (pattern r) q"
  shows "testRule mk q cu (True, False) r = (True, False)"
  using assms by (simp add: testRule_def)

lemma foldl_testRule_ignored:
  "\<forall>r \<in> set rules. negative r \<longrightarrow> \<not> mk (pattern r) q \<Longrightarrow>
   foldl (testRule mk q cu) (True, False) rules = (True, False)"
  by (induction rules) (simp_all add: testRule_ignored)

lemma testOne_gitRule:
  assumes "mk ''.git'' q"
    and "\<forall>r \<in> set rest. negative r \<longrightarrow> \<not> mk (pattern r) q"
  shows "testOne mk (gitRule # rest) q cu = (True, False)"
proof -
  have "testRule mk q cu (False, False) gitRule = (True, False)"
    using assms(1) by (simp add: testRule_def gitRule_def)
  then show ?thesis
    using foldl_testRule_ignored [of rest mk q cu] assms(2) by (simp add: testOne_def)
qed

text \<open>
  An ignored parent directory decides: if one of the strings tested on the way down is
  ignored, so is the path.
\<close>

lemma ignore_t_path:
  "fst (testOne mk rules path cu) \<Longrightarrow> fst (ignore_t mk rules path cu slices)"
  by (subst ignore_t.simps) (simp add: Let_def)

lemma ignore_t_parent:
  assumes "k < length slices" "0 < k"
    and "fst (testOne mk rules (joinWith ''/'' (take k slices) @ ''/'') cu)"
  shows "fst (ignore_t mk rules path cu slices)"
  using assms
proof (induction "length slices" arbitrary: slices path)
  case 0
  then show ?case by simp
next
  case (Suc n)
  let ?b = "butlast slices"
  from Suc.prems(1,2) have ne: "?b \<noteq> []" by (cases slices rule: rev_cases) auto
  have len: "length ?b = n" using Suc.hyps(2) by simp
  have parent: "fst (ignore_t mk rules (joinWith ''/'' ?b @ ''/'') cu ?b)"
  proof (cases "k = n")
    case True
    then have "take k slices = ?b" using len by (simp add: butlast_conv_take)
    with Suc.prems(3) have "fst (testOne mk rules (joinWith ''/'' ?b @ ''/'') cu)" by simp
    then show ?thesis by (rule ignore_t_path)
  next
    case False
    with Suc.prems(1) Suc.hyps(2) have k: "k < length ?b" by simp
    then have "take k ?b = take k slices" by (simp add: take_butlast)
    with Suc.prems(3) have "fst (testOne mk rules (joinWith ''/'' (take k ?b) @ ''/'') cu)" by simp
    from Suc.hyps(1) [OF len [symmetric] k Suc.prems(2) this] show ?thesis .
  qed
  show ?case
    by (subst ignore_t.simps) (use ne parent in \<open>simp add: Let_def\<close>)
qed

lemma ignore_t_testedPrefix:
  assumes "i < length slices"
    and "fst (testOne mk rules (testedPrefix slices i) cu)"
  shows "fst (ignore_t mk rules (joinWith ''/'' slices) cu slices)"
proof (cases "Suc i < length slices")
  case True
  with assms(2) have "fst (testOne mk rules (joinWith ''/'' (take (Suc i) slices) @ ''/'') cu)"
    by (simp add: testedPrefix_def)
  with True show ?thesis by (intro ignore_t_parent [of "Suc i"]) simp_all
next
  case False
  with assms(1) have "take (Suc i) slices = slices" by simp
  with False assms(2) have "fst (testOne mk rules (joinWith ''/'' slices) cu)"
    by (simp add: testedPrefix_def)
  then show ?thesis by (rule ignore_t_path)
qed

lemma toLowerCase_git [simp]: "toLowerCase ''.git'' = ''.git''"
  by code_simp

lemma toLowerCase_append: "toLowerCase (a @ b) = toLowerCase a @ toLowerCase b"
  by (simp add: toLowerCase_def)

lemma toLowerChar_slash: "toLowerChar c = CHR ''/'' \<longleftrightarrow> c = CHR ''/''"
proof
  assume a: "toLowerChar c = CHR ''/''"
  show "c = CHR ''/''"
  proof (cases "65 \<le> (of_char c :: nat) \<and> (of_char c :: nat) \<le> 90")
    case False
    then have "toLowerChar c = c" unfolding toLowerChar_def Let_def by (simp only: if_False)
    with a show ?thesis by simp
  next
    case True
    with a have "char_of (of_char c + 32 :: nat) = CHR ''/''" by (simp add: toLowerChar_def Let_def)
    then have "(of_char (char_of (of_char c + 32 :: nat)) :: nat) = of_char CHR ''/''" by simp
    then have m: "(of_char c + 32 :: nat) mod 256 = 47" by (simp add: of_char_of)
    from True have "(of_char c + 32 :: nat) < 256" by simp
    then have "(of_char c + 32 :: nat) mod 256 = of_char c + 32" by (rule mod_less)
    with m True show ?thesis by simp
  qed
next
  assume "c = CHR ''/''"
  then show "toLowerChar c = CHR ''/''" by (simp add: toLowerChar_def)
qed

lemma endsInSegment_append:
  "pre = [] \<or> last pre = CHR ''/'' \<Longrightarrow> endsInSegment n (pre @ n)"
  by (cases pre rule: rev_cases) (auto simp: endsInSegment_def nth_append)

text \<open>The literal pattern matches every tested string whose last segment is the name.\<close>

lemma makeRegexLiteral_git:
  assumes "pre = [] \<or> last pre = CHR ''/''" and "sfx = [] \<or> sfx = ''/''"
  shows "makeRegexLiteral ''.git'' (pre @ ''.git'' @ sfx)"
proof -
  let ?lp = "toLowerCase pre"
  have lp: "?lp = [] \<or> last ?lp = CHR ''/''"
    using assms(1) by (cases pre rule: rev_cases) (auto simp: toLowerCase_def toLowerChar_slash)
  have seg: "endsInSegment ''.git'' (?lp @ ''.git'')" using lp by (rule endsInSegment_append)
  from assms(2) show ?thesis
  proof
    assume "sfx = []"
    then have "toLowerCase (pre @ ''.git'' @ sfx) = ?lp @ ''.git''"
      using toLowerCase_append [of pre "''.git''"] by simp
    with seg show ?thesis by (simp add: makeRegexLiteral_def Let_def)
  next
    assume "sfx = ''/''"
    then have "toLowerCase (pre @ ''.git'' @ sfx) = (?lp @ ''.git'') @ ''/''"
      using toLowerCase_append [of pre "''.git/''"] by (simp add: toLowerCase_def toLowerChar_def)
    with seg show ?thesis
      by (simp only: makeRegexLiteral_def Let_def toLowerCase_git butlast_snoc last_snoc
          append_is_Nil_conv not_Cons_self2 simp_thms list.distinct
          append_assoc [symmetric] append.simps(2) [symmetric] append.simps(1) [symmetric])
  qed
qed

lemma testedPrefix_git:
  assumes "i < length slices" "slices ! i = ''.git''"
  shows "makeRegexLiteral ''.git'' (testedPrefix slices i)"
proof -
  have tk: "take (Suc i) slices = take i slices @ [''.git'']"
    using assms by (simp add: take_Suc_conv_app_nth)
  let ?pre = "if take i slices = [] then [] else joinWith ''/'' (take i slices) @ ''/''"
  let ?sfx = "if Suc i < length slices then ''/'' else []"
  have "testedPrefix slices i = ?pre @ ''.git'' @ ?sfx"
    by (simp add: testedPrefix_def tk joinWith_snoc)
  moreover have "makeRegexLiteral ''.git'' (?pre @ ''.git'' @ ?sfx)"
    by (rule makeRegexLiteral_git) simp_all
  ultimately show ?thesis by simp
qed

lemma joinWith_splitOn: "joinWith [sep] (splitOn sep s) = s"
proof (induction s)
  case Nil
  then show ?case by simp
next
  case (Cons c s)
  obtain x xs where sp: "splitOn sep s = x # xs" by (cases "splitOn sep s") simp_all
  show ?case
  proof (cases "c = sep")
    case True
    with Cons sp show ?thesis by simp
  next
    case False
    with Cons sp show ?thesis by (cases xs) simp_all
  qed
qed

text \<open>
  C4.  In every state whose cache was filled by \<open>loadGitignoreRules\<close> (\<open>cacheBuilt\<close>:
  the initial state and every state the handler produces from it), the rule set for any
  root begins with the rule \<open>.git\<close>, whatever the ignore files contain or whether they
  exist.  A path is reported ignored when its root-relative path does not start with
  \<open>..\<close>, passes the relative-path check of the ignore package, has a segment \<open>.git\<close>,
  the package compiles the pattern \<open>.git\<close> as a literal name, and no negated rule of the
  rule set matches the string tested for that segment.
\<close>

theorem git_rule_present_and_effective:
  assumes "cacheBuilt st"
  shows "(\<exists>rest. fst (loadGitignoreRules e st R) = gitRule # rest)
         \<and> (let normalizedPath = map (\<lambda>c. if c = CHR 0x5C then CHR ''/'' else c)
                                     (relative (cwd e) R p);
                 slices = splitOn CHR ''/'' normalizedPath
             in makeRegex e ''.git'' = makeRegexLiteral ''.git''
                \<and> \<not> startsWith (relative (cwd e) R p) ''..''
                \<and> \<not> isNotRelative normalizedPath
                \<and> i < length slices \<and> slices ! i = ''.git''
                \<and> (\<forall>r \<in> set (fst (loadGitignoreRules e st R)).
                      negative r \<longrightarrow> \<not> makeRegex e (pattern r) (testedPrefix slices i))
                \<longrightarrow> fst (shouldIgnoreFile e st p R) = Inr True)"
proof -
  let ?rel = "relative (cwd e) R p"
  let ?np = "map (\<lambda>c. if c = CHR 0x5C then CHR ''/'' else c) ?rel"
  let ?slices = "splitOn CHR ''/'' ?np"
  obtain ig st' where l: "loadGitignoreRules e st R = (ig, st')"
    by (rule loadGitignoreRules_cases)
  from loadGitignoreRules_gitRule [OF assms, of e R] l obtain rest where ig: "ig = gitRule # rest"
    by auto
  have b: "fst (shouldIgnoreFile e st p R) = Inr True"
    if mk: "makeRegex e ''.git'' = makeRegexLiteral ''.git''"
      and up: "\<not> startsWith ?rel ''..''"
      and ok: "\<not> isNotRelative ?np"
      and i: "i < length ?slices" "?slices ! i = ''.git''"
      and neg: "\<forall>r \<in> set ig. negative r \<longrightarrow> \<not> makeRegex e (pattern r) (testedPrefix ?slices i)"
  proof -
    have ne: "?rel \<noteq> []"
    proof
      assume "?rel = []"
      then have "?slices = [[]]" by simp
      with i show False by simp
    qed
    have nd: "?rel \<noteq> ''.''"
    proof
      assume "?rel = ''.''"
      then have "?slices = [''.'']" by simp
      with i show False by simp
    qed
    have "makeRegex e ''.git'' (testedPrefix ?slices i)"
      unfolding mk using i by (rule testedPrefix_git)
    moreover have "\<forall>r \<in> set rest. negative r \<longrightarrow> \<not> makeRegex e (pattern r) (testedPrefix ?slices i)"
      using neg ig by simp
    ultimately have "testOne (makeRegex e) ig (testedPrefix ?slices i) False = (True, False)"
      unfolding ig by (rule testOne_gitRule)
    then have "fst (testOne (makeRegex e) ig (testedPrefix ?slices i) False)" by simp
    with i(1) have "fst (ignore_t (makeRegex e) ig (joinWith ''/'' ?slices) False ?slices)"
      by (rule ignore_t_testedPrefix)
    then have t: "fst (ignore_t (makeRegex e) ig ?np False ?slices)"
      using joinWith_splitOn [of "CHR ''/''" ?np] by simp
    have "ignores (makeRegex e) ig ?np = Inr True"
      using ne ok t by (simp add: ignores_def)
    then show ?thesis
      using l up ne nd by (simp add: shouldIgnoreFile_def Let_def)
  qed
  from l ig b show ?thesis by (simp add: Let_def)
qed

theorem git_rule_present_and_effective_witness:
  "cacheBuilt initialState
   \<and> makeRegex sampleEnv ''.git'' = makeRegexLiteral ''.git''
   \<and> relative (cwd sampleEnv) ''/srv/docs'' ''/srv/docs/A/.git/config'' = ''A/.git/config''
   \<and> \<not> startsWith ''A/.git/config'' ''..''
   \<and> \<not> isNotRelative ''A/.git/config''
   \<and> splitOn CHR ''/'' ''A/.git/config'' = [''A'', ''.git'', ''config'']
   \<and> fst (loadGitignoreRules sampleEnv initialState ''/srv/docs'') = [gitRule]
   \<and> fst (shouldIgnoreFile sampleEnv initialState ''/srv/docs/A/.git/config'' ''/srv/docs'') = Inr True"
proof -
  have h0: "cacheBuilt initialState" by (simp add: cacheBuilt_def initialState_def)
  have h1: "makeRegex sampleEnv ''.git'' = makeRegexLiteral ''.git''" by (simp add: sampleEnv_def)
  have h2: "relative (cwd sampleEnv) ''/srv/docs'' ''/srv/docs/A/.git/config'' = ''A/.git/config''"
    by code_simp
  have h3: "\<not> startsWith ''A/.git/config'' ''..''" by code_simp
  have h4: "\<not> isNotRelative ''A/.git/config''" by code_simp
  have h5: "splitOn CHR ''/'' ''A/.git/config'' = [''A'', ''.git'', ''config'']" by code_simp
  have h6: "fst (loadGitignoreRules sampleEnv initialState ''/srv/docs'') = [gitRule]" by code_simp
  have h7: "\<not> negative gitRule" by (simp add: gitRule_def)
  from git_rule_present_and_effective [OF h0, of sampleEnv "''/srv/docs''" "''/srv/docs/A/.git/config''" 1]
  have "fst (shouldIgnoreFile sampleEnv initialState ''/srv/docs/A/.git/config'' ''/srv/docs'') = Inr True"
    unfolding h2 Let_def using h1 h3 h4 h5 h6 h7 by simp
  with h0 h1 h2 h3 h4 h5 h6 show ?thesis by blast
qed

text \<open>
  C4 as stated fails: with an ignore file \<open>!.git\<close> in the root the rule set still begins
  with the rule \<open>.git\<close>, but the later negated rule re-includes the directory, and a path
  below it is not reported ignored.
\<close>

theorem git_rule_negated_counterexample:
  "fst (loadGitignoreRules negatingEnv initialState ''/srv/docs'')
     = [gitRule, \<lparr>pattern = ''.git'', negative = True\<rparr>]
   \<and> fst (shouldIgnoreFile negatingEnv initialState ''/srv/docs/.git/config'' ''/srv/docs'')
       = Inr False"
  by code_simp

section \<open>The cache invariant along a request\<close>

lemma cacheBuilt_getFileInfo: "cacheBuilt st \<Longrightarrow> cacheBuilt (snd (getFileInfo e st p))"
  by (simp add: getFileInfo_def Let_def split: option.splits)

lemma cacheBuilt_filterIgnored: "cacheBuilt st \<Longrightarrow> cacheBuilt (snd (filterIgnored e st ps))"
proof (induction ps arbitrary: st)
  case Nil
  then show ?case by simp
next
  case (Cons p ps)
  obtain r s1 where s: "shouldIgnoreFile e st p (ROOT_DIR e) = (r, s1)"
    by (cases "shouldIgnoreFile e st p (ROOT_DIR e)")
  have c1: "cacheBuilt s1" using cacheBuilt_shouldIgnoreFile [OF Cons.prems, of e p "ROOT_DIR e"] s by simp
  obtain r2 s2 where f: "filterIgnored e s1 ps = (r2, s2)" by (cases "filterIgnored e s1 ps")
  have c2: "cacheBuilt s2" using Cons.IH [OF c1] f by simp
  show ?case
  proof (cases r)
    case (Inl x)
    with s c1 show ?thesis by simp
  next
    case (Inr b)
    with s f c2 show ?thesis by (cases r2) simp_all
  qed
qed

lemma cacheBuilt_mapFileInfo: "cacheBuilt st \<Longrightarrow> cacheBuilt (snd (mapFileInfo e st ps))"
proof (induction ps arbitrary: st)
  case Nil
  then show ?case by simp
next
  case (Cons p ps)
  obtain r s1 where g: "getFileInfo e st p = (r, s1)" by (cases "getFileInfo e st p")
  have c1: "cacheBuilt s1" using cacheBuilt_getFileInfo [OF Cons.prems, of e p] g by simp
  obtain r2 s2 where m: "mapFileInfo e s1 ps = (r2, s2)" by (cases "mapFileInfo e s1 ps")
  have c2: "cacheBuilt s2" using Cons.IH [OF c1] m by simp
  show ?case
  proof (cases r)
    case (Inl x)
    with g c1 show ?thesis by simp
  next
    case (Inr b)
    with g m c2 show ?thesis by (cases r2) simp_all
  qed
qed

lemma cacheBuilt_serveDirectory:
  assumes "cacheBuilt st"
  shows "cacheBuilt (snd (serveDirectory e st rp full))"
proof (cases "readdirSync e full")
  case None
  with assms show ?thesis by (simp add: serveDirectory_def Let_def)
next
  case (Some entries)
  let ?paths = "map (\<lambda>file. join full file) (filter (\<lambda>file. \<not> startsWith file ''.'') entries)"
  obtain r s2 where f: "filterIgnored e (logCall (ReaddirSync full) st) ?paths = (r, s2)"
    by (cases "filterIgnored e (logCall (ReaddirSync full) st) ?paths")
  have c2: "cacheBuilt s2"
    using cacheBuilt_filterIgnored [of "logCall (ReaddirSync full) st" e ?paths] assms f by simp
  show ?thesis
  proof (cases r)
    case (Inl x)
    with Some f c2 show ?thesis by (simp add: serveDirectory_def Let_def)
  next
    case (Inr kept)
    obtain r3 s3 where m: "mapFileInfo e s2 kept = (r3, s3)" by (cases "mapFileInfo e s2 kept")
    have c3: "cacheBuilt s3" using cacheBuilt_mapFileInfo [OF c2, of e kept] m by simp
    with Some f Inr m show ?thesis by (cases r3) (simp_all add: serveDirectory_def Let_def)
  qed
qed

lemma cacheBuilt_serveFile: "cacheBuilt st \<Longrightarrow> cacheBuilt (snd (serveFile e st rp full))"
  by (simp add: serveFile_def Let_def split: option.splits)

lemma cacheBuilt_serve: "cacheBuilt st \<Longrightarrow> cacheBuilt (snd (serve e st rp full))"
  by (simp add: serve_def Let_def cacheBuilt_serveDirectory cacheBuilt_serveFile split: option.splits)

text \<open>Every state reached by handling requests from the initial state satisfies \<open>cacheBuilt\<close>.\<close>

lemma cacheBuilt_handler:
  assumes "cacheBuilt st"
  shows "cacheBuilt (snd (handler e st reqPath))"
proof (cases "decodeURIComponent reqPath")
  case (Inl x)
  with assms show ?thesis by (simp add: handler_def)
next
  case (Inr requestedPath)
  let ?full = "join (ROOT_DIR e) requestedPath"
  show ?thesis
  proof (cases "\<not> isSubPath (cwd e) (ROOT_DIR e) ?full \<and> ?full \<noteq> ROOT_DIR e")
    case True
    with assms Inr show ?thesis by (simp add: handler_def Let_def)
  next
    case False
    obtain r st1 where s: "shouldIgnoreFile e st ?full (ROOT_DIR e) = (r, st1)"
      by (cases "shouldIgnoreFile e st ?full (ROOT_DIR e)")
    have c1: "cacheBuilt st1"
      using cacheBuilt_shouldIgnoreFile [OF assms, of e ?full "ROOT_DIR e"] s by simp
    obtain r2 st2 where sv: "serve e st1 requestedPath ?full = (r2, st2)"
      by (cases "serve e st1 requestedPath ?full")
    have c2: "cacheBuilt st2" using cacheBuilt_serve [OF c1, of e requestedPath ?full] sv by simp
    have h: "handler e st reqPath =
        (case (r, st1) of
           (Inl x, st1) \<Rightarrow> (Uncaught x, st1)
         | (Inr True, st1) \<Rightarrow> (Responded (Send 404 (Text ''File not found'')), st1)
         | (Inr False, st1) \<Rightarrow>
             (case serve e st1 requestedPath ?full of
                (Inl error, st2) \<Rightarrow> (Responded (Send 500 (Text ''Internal server error'')), st2)
              | (Inr r, st2) \<Rightarrow> (Responded r, st2)))"
      using Inr False s by (auto simp: handler_def Let_def)
    show ?thesis
    proof (cases r)
      case Inl2: (Inl x)
      with h c1 show ?thesis by simp
    next
      case Inr2: (Inr b)
      show ?thesis
      proof (cases b)
        case True
        with h Inr2 c1 show ?thesis by simp
      next
        case F: False
        with h Inr2 sv c2 show ?thesis by (cases r2) simp_all
      qed
    qed
  qed
qed

section \<open>Malformed escapes\<close>

text \<open>
  \<open>decodeURIComponent\<close> is called before the \<^verbatim>\<open>try\<close> block: when it fails the
  handler sends nothing and the exception leaves it with the state untouched.  Which
  status the client then sees is decided by the Express router and its final error
  handler, outside this code.
\<close>

lemma handler_decode_failure:
  "decodeURIComponent reqPath = Inl x \<Longrightarrow> handler e st reqPath = (Uncaught x, st)"
  by (simp add: handler_def)


end
